theory Spec2Isabelle
  imports Complex_Main "HOL-Library.Log_Nat" "HOL-Library.Word"
begin

section \<open>Python values used by generate\_avatar.py\<close>

text \<open>
  The program is a single Python module. Exceptions are values of the type \<open>error\<close>;
  a function that can raise returns \<open>error + 'a\<close>, with \<open>Inl\<close> the exception.

  \<^item> \<open>InvalidLiteral\<close>: the \<open>ValueError\<close> of \<open>int(text, base)\<close>;
  \<^item> \<open>BadColorLength\<close>: \<open>ValueError("Expected a 6-digit hex color, ...")\<close>;
  \<^item> \<open>UnsupportedShape\<close>: \<open>ValueError("Unsupported shape: ...")\<close>;
  \<^item> \<open>NoDrawableGlyphs\<close>: \<open>RuntimeError("Shaping produced no drawable glyphs.")\<close>;
  \<^item> \<open>ZeroDivision\<close>: \<open>ZeroDivisionError\<close>;
  \<^item> \<open>FloatToIntOverflow\<close>, \<open>FloatToIntNaN\<close>: \<open>OverflowError\<close> and
    \<open>ValueError\<close> of \<open>int(x)\<close> and \<open>round(x)\<close> at an infinity and at a NaN;
  \<^item> \<open>IntToFloatOverflow\<close>: the \<open>OverflowError\<close> of converting an \<open>int\<close> that is
    beyond the range of a float, and of a true division of \<open>int\<close>s whose quotient is;
  \<^item> \<open>PositionsNotIterable\<close>: the \<open>TypeError\<close> of \<open>zip(infos, positions)\<close> when
    \<open>positions\<close> is \<open>None\<close>;
  \<^item> \<open>ImageLibraryError\<close>: an exception that a call of the image library or of the
    file system raises (\<open>ValueError\<close>, \<open>OSError\<close>, \<open>MemoryError\<close>);
  \<^item> \<open>FontLoadError\<close>: the font file cannot be opened by the rasterizer;
  \<^item> \<open>FontNotFound\<close>: \<open>FileNotFoundError("Font not found: ...")\<close>;
  \<^item> \<open>InvalidChoice\<close>: the exit of the argument parser on a value outside \<open>choices\<close>.
\<close>

datatype error =
    InvalidLiteral
  | BadColorLength
  | UnsupportedShape
  | NoDrawableGlyphs
  | ZeroDivision
  | FloatToIntOverflow
  | FloatToIntNaN
  | IntToFloatOverflow
  | PositionsNotIterable
  | ImageLibraryError
  | FontLoadError
  | FontNotFound
  | InvalidChoice

subsection \<open>Strings\<close>

text \<open>
  A Python \<open>str\<close> is a \<open>string\<close>; a \<open>char\<close> stands for the code point of the same
  number, so the model covers the strings whose code points are below 256.
  \<open>str.strip()\<close> removes the characters for which \<open>str.isspace\<close> holds; \<open>int(...)\<close>
  skips a smaller set (it does not skip the separators U+001C to U+001F).
\<close>

definition is_space :: "char \<Rightarrow> bool" where
  "is_space c = (let n = (of_char c :: nat) in
     (9 \<le> n \<and> n \<le> 13) \<or> (28 \<le> n \<and> n \<le> 32) \<or> n = 133 \<or> n = 160)"

definition is_int_space :: "char \<Rightarrow> bool" where
  "is_int_space c = (let n = (of_char c :: nat) in
     (9 \<le> n \<and> n \<le> 13) \<or> n = 32 \<or> n = 133 \<or> n = 160)"

definition strip :: "string \<Rightarrow> string" where
  "strip s = rev (dropWhile is_space (rev (dropWhile is_space s)))"

text \<open>\<open>s.split(c)\<close> for a one-character separator: never an empty list.\<close>

fun split_on :: "char \<Rightarrow> string \<Rightarrow> string list" where
  "split_on c [] = [[]]"
| "split_on c (x # xs) =
     (if x = c then [] # split_on c xs
      else (case split_on c xs of
              [] \<Rightarrow> [[x]]
            | w # ws \<Rightarrow> (x # w) # ws))"

text \<open>\<open>s.split(c, 1)\<close> on a string that contains \<open>c\<close>: the parts before and after the
  first \<open>c\<close>.\<close>

definition split_first :: "char \<Rightarrow> string \<Rightarrow> string \<times> string" where
  "split_first c s = (takeWhile (\<lambda>x. x \<noteq> c) s, drop 1 (dropWhile (\<lambda>x. x \<noteq> c) s))"

subsection \<open>\<open>int(text, base)\<close>\<close>

text \<open>
  The digit value of a character: \<open>0-9\<close>, then \<open>a-z\<close> and \<open>A-Z\<close> for 10 to 35, and 37
  for every other character.
\<close>

definition digit_value :: "char \<Rightarrow> nat" where
  "digit_value c = (let n = (of_char c :: nat) in
     if 48 \<le> n \<and> n \<le> 57 then n - 48
     else if 97 \<le> n \<and> n \<le> 122 then n - 87
     else if 65 \<le> n \<and> n \<le> 90 then n - 55
     else 37)"

text \<open>
  The digits of the literal, with single underscores between digits: the scan stops at the
  first character that is neither a digit of the base nor an underscore, and fails on a
  doubled or trailing underscore. It returns the value, the number of digits and the rest.
\<close>

fun scan_digits :: "nat \<Rightarrow> string \<Rightarrow> bool \<Rightarrow> nat \<Rightarrow> nat \<Rightarrow> (nat \<times> nat \<times> string) option" where
  "scan_digits b [] prev_us n acc = (if prev_us then None else Some (acc, n, []))"
| "scan_digits b (c # cs) prev_us n acc =
     (if c = CHR ''_'' then
        (if prev_us then None else scan_digits b cs True n acc)
      else if digit_value c < b then scan_digits b cs False (Suc n) (acc * b + digit_value c)
      else if prev_us then None
      else Some (acc, n, c # cs))"

text \<open>
  \<open>int(text, base)\<close> for base 10 and base 16: leading whitespace, an optional sign, for
  base 16 an optional \<open>0x\<close> or \<open>0X\<close> (which one underscore may follow), the digits, and
  trailing whitespace up to the end of the string. The limit of the interpreter on the
  number of decimal digits (4300 by default) is not part of the model.
\<close>

definition py_int :: "nat \<Rightarrow> string \<Rightarrow> error + int" where
  "py_int b s =
     (let s1 = dropWhile is_int_space s;
          (neg, s2) = (case s1 of
                         c # r \<Rightarrow> if c = CHR ''+'' then (False, r)
                                   else if c = CHR ''-'' then (True, r)
                                   else (False, s1)
                       | [] \<Rightarrow> (False, s1));
          s3 = (case s2 of
                  c # d # r \<Rightarrow>
                    if b = 16 \<and> c = CHR ''0'' \<and> (d = CHR ''x'' \<or> d = CHR ''X'')
                    then (case r of
                            [] \<Rightarrow> r
                          | u # r' \<Rightarrow> if u = CHR ''_'' then r' else r)
                    else s2
                | _ \<Rightarrow> s2)
      in case s3 of
           [] \<Rightarrow> Inl InvalidLiteral
         | c # _ \<Rightarrow>
             if c = CHR ''_'' then Inl InvalidLiteral
             else (case scan_digits b s3 False 0 0 of
                     None \<Rightarrow> Inl InvalidLiteral
                   | Some (v, n, rest) \<Rightarrow>
                       if n = 0 then Inl InvalidLiteral
                       else if dropWhile is_int_space rest \<noteq> [] then Inl InvalidLiteral
                       else Inr (if neg then - int v else int v)))"

section \<open>Color Parser\<close>

text \<open>
  \<open>parse_color(value, alpha)\<close>: strip, drop one leading \<open>#\<close>, require length 6, read the
  three pairs with \<open>int(pair, 16)\<close>.
\<close>

definition parse_color :: "string \<Rightarrow> int \<Rightarrow> error + (int \<times> int \<times> int \<times> int)" where
  "parse_color value0 alpha =
     (let value1 = strip value0;
          value = (case value1 of
                     c # r \<Rightarrow> if c = CHR ''#'' then r else value1
                   | [] \<Rightarrow> value1)
      in if length value \<noteq> 6 then Inl BadColorLength
         else (case py_int 16 (take 2 value) of
                 Inl e \<Rightarrow> Inl e
               | Inr r \<Rightarrow>
                   (case py_int 16 (take 2 (drop 2 value)) of
                      Inl e \<Rightarrow> Inl e
                    | Inr g \<Rightarrow>
                        (case py_int 16 (take 2 (drop 4 value)) of
                           Inl e \<Rightarrow> Inl e
                         | Inr b \<Rightarrow> Inr (r, g, b, alpha)))))"

section \<open>Feature Spec Parser\<close>

text \<open>
  The body of the loop of \<open>parse_features\<close> on one item of the split: \<open>None\<close> for an
  item that is skipped, otherwise the key and the value stored in the dictionary.
\<close>

definition feature_item :: "string \<Rightarrow> error + (string \<times> int) option" where
  "feature_item item =
     (let token = strip item in
      if token = [] then Inr None
      else if CHR ''='' \<in> set token then
        (let (tag, raw_value) = split_first (CHR ''='') token in
         case py_int 10 (strip raw_value) of
           Inl e \<Rightarrow> Inl e
         | Inr v \<Rightarrow> Inr (Some (strip tag, v)))
      else Inr (Some (token, 1)))"

fun features_loop :: "string list \<Rightarrow> (string \<rightharpoonup> int) \<Rightarrow> error + (string \<rightharpoonup> int)" where
  "features_loop [] features = Inr features"
| "features_loop (item # items) features =
     (case feature_item item of
        Inl e \<Rightarrow> Inl e
      | Inr None \<Rightarrow> features_loop items features
      | Inr (Some (tag, v)) \<Rightarrow> features_loop items (features(tag \<mapsto> v)))"

definition parse_features :: "string \<Rightarrow> error + (string \<rightharpoonup> int)" where
  "parse_features features_text = features_loop (split_on (CHR '','') features_text) Map.empty"

section \<open>Floating-point numbers\<close>

text \<open>
  A Python \<open>float\<close> is an IEEE 754 binary64 number: a finite value, an infinity or a NaN.
  Finite values are rationals. Every arithmetic operation rounds the exact result to the
  nearest float, ties to even: to a significand of 53 bits, or to a multiple of
  \<open>2\<^sup>-\<^sup>1\<^sup>0\<^sup>7\<^sup>4\<close> where the result is subnormal. A rounded result beyond the largest
  finite float, \<open>(2\<^sup>5\<^sup>3 - 1) * 2\<^sup>9\<^sup>7\<^sup>1\<close>, is an infinity in float arithmetic, and an
  \<open>OverflowError\<close> in the conversion of an \<open>int\<close> and in the true division of two
  \<open>int\<close>s. The two zeros are one value.
\<close>

datatype pyfloat = Fin rat | PInf | NInf | NaN

definition round_half_even :: "rat \<Rightarrow> int" where
  "round_half_even q =
     (let f = \<lfloor>q\<rfloor>; d = q - of_int f in
      if d < 1 / 2 then f
      else if 1 / 2 < d then f + 1
      else if even f then f else f + 1)"

definition pow2 :: "int \<Rightarrow> rat" where
  "pow2 e = (if 0 \<le> e then 2 ^ nat e else 1 / 2 ^ nat (- e))"

text \<open>For \<open>0 < q\<close>, the exponent \<open>e\<close> with \<open>2\<^sup>e \<le> q < 2\<^sup>e\<^sup>+\<^sup>1\<close>.\<close>

definition ilog2 :: "rat \<Rightarrow> int" where
  "ilog2 q =
     (let (p, d) = quotient_of q; e = bitlen p - bitlen d in
      if pow2 e \<le> q then e else e - 1)"

text \<open>Rounding to the nearest float, before the test for overflow: the unit in the last
  place of \<open>q\<close> is \<open>2\<^sup>e\<^sup>-\<^sup>5\<^sup>2\<close> for the exponent \<open>e\<close> of \<open>q\<close>, and not below
  \<open>2\<^sup>-\<^sup>1\<^sup>0\<^sup>7\<^sup>4\<close>.\<close>

definition rnd :: "rat \<Rightarrow> rat" where
  "rnd q =
     (if q = 0 then 0
      else (let u = pow2 (max (ilog2 \<bar>q\<bar> - 52) (- 1074))
            in of_int (round_half_even (q / u)) * u))"

definition max_double :: rat where
  "max_double = (2 ^ 53 - 1) * 2 ^ 971"

text \<open>The float that a rounded result of float arithmetic is.\<close>

definition of_rounded :: "rat \<Rightarrow> pyfloat" where
  "of_rounded r =
     (if max_double < r then PInf else if r < - max_double then NInf else Fin r)"

text \<open>A literal of the program (\<open>0.0\<close>, \<open>0.70\<close>, \<open>0.08\<close>) or of an example, within the
  range of a float.\<close>

definition float_lit :: "rat \<Rightarrow> pyfloat" where
  "float_lit q = Fin (rnd q)"

text \<open>The conversion of an \<open>int\<close> operand that is within the range of a float: the
  integers that the shaping engine and the rasterizer return are C integers of 32 bits.\<close>

definition float_of_int :: "int \<Rightarrow> pyfloat" where
  "float_of_int i = Fin (rnd (of_int i))"

text \<open>The conversion of an arbitrary \<open>int\<close>, as in \<open>size * 0.70\<close>.\<close>

definition float_of_pyint :: "int \<Rightarrow> error + pyfloat" where
  "float_of_pyint i =
     (if max_double < \<bar>rnd (of_int i)\<bar> then Inl IntToFloatOverflow else Inr (float_of_int i))"

fun fneg :: "pyfloat \<Rightarrow> pyfloat" where
  "fneg (Fin a) = Fin (- a)"
| "fneg PInf = NInf"
| "fneg NInf = PInf"
| "fneg NaN = NaN"

fun fadd :: "pyfloat \<Rightarrow> pyfloat \<Rightarrow> pyfloat" where
  "fadd (Fin a) (Fin b) = of_rounded (rnd (a + b))"
| "fadd NaN _ = NaN"
| "fadd _ NaN = NaN"
| "fadd PInf NInf = NaN"
| "fadd NInf PInf = NaN"
| "fadd PInf _ = PInf"
| "fadd _ PInf = PInf"
| "fadd NInf _ = NInf"
| "fadd _ NInf = NInf"

definition fsub :: "pyfloat \<Rightarrow> pyfloat \<Rightarrow> pyfloat" where
  "fsub a b = fadd a (fneg b)"

text \<open>The sign of a float: 1, 0 or -1; a NaN has none.\<close>

fun fsign :: "pyfloat \<Rightarrow> int option" where
  "fsign (Fin a) = Some (sgn \<lfloor>sgn a\<rfloor>)"
| "fsign PInf = Some 1"
| "fsign NInf = Some (- 1)"
| "fsign NaN = None"

fun fmul :: "pyfloat \<Rightarrow> pyfloat \<Rightarrow> pyfloat" where
  "fmul (Fin a) (Fin b) = of_rounded (rnd (a * b))"
| "fmul a b =
     (case (fsign a, fsign b) of
        (Some sa, Some sb) \<Rightarrow>
          if sa * sb = 0 then NaN else if 0 < sa * sb then PInf else NInf
      | _ \<Rightarrow> NaN)"

fun flt :: "pyfloat \<Rightarrow> pyfloat \<Rightarrow> bool" where
  "flt (Fin a) (Fin b) = (a < b)"
| "flt NaN _ = False"
| "flt _ NaN = False"
| "flt _ NInf = False"
| "flt PInf _ = False"
| "flt NInf _ = True"
| "flt _ PInf = True"

definition feq :: "pyfloat \<Rightarrow> pyfloat \<Rightarrow> bool" where
  "feq a b =
     (case (a, b) of
        (Fin x, Fin y) \<Rightarrow> x = y
      | (PInf, PInf) \<Rightarrow> True
      | (NInf, NInf) \<Rightarrow> True
      | _ \<Rightarrow> False)"

definition fle :: "pyfloat \<Rightarrow> pyfloat \<Rightarrow> bool" where
  "fle a b = (flt a b \<or> feq a b)"

text \<open>
  The built-ins \<open>min(a, b)\<close> and \<open>max(a, b)\<close> keep the first argument unless the second
  is strictly smaller (larger).
\<close>

definition py_min :: "pyfloat \<Rightarrow> pyfloat \<Rightarrow> pyfloat" where
  "py_min a b = (if flt b a then b else a)"

definition py_max :: "pyfloat \<Rightarrow> pyfloat \<Rightarrow> pyfloat" where
  "py_max a b = (if flt a b then b else a)"

text \<open>\<open>a / b\<close> on two \<open>int\<close>s: the exact quotient, rounded once.\<close>

definition int_truediv :: "int \<Rightarrow> int \<Rightarrow> error + pyfloat" where
  "int_truediv a b =
     (if b = 0 then Inl ZeroDivision
      else (let r = rnd (of_int a / of_int b)
            in if max_double < \<bar>r\<bar> then Inl IntToFloatOverflow else Inr (Fin r)))"

text \<open>\<open>int(x)\<close> truncates towards zero; \<open>round(x)\<close> rounds to the nearest \<open>int\<close>, ties to
  even. Both raise at an infinity and at a NaN.\<close>

fun py_trunc :: "pyfloat \<Rightarrow> error + int" where
  "py_trunc (Fin a) = Inr (if 0 \<le> a then \<lfloor>a\<rfloor> else \<lceil>a\<rceil>)"
| "py_trunc NaN = Inl FloatToIntNaN"
| "py_trunc _ = Inl FloatToIntOverflow"

fun py_round :: "pyfloat \<Rightarrow> error + int" where
  "py_round (Fin a) = Inr (round_half_even a)"
| "py_round NaN = Inl FloatToIntNaN"
| "py_round _ = Inl FloatToIntOverflow"

text \<open>\<open>range(start, stop, step)\<close> as a list; a step of 0 (a \<open>ValueError\<close> in Python) does
  not occur in the program and gives the empty list.\<close>

function py_range :: "int \<Rightarrow> int \<Rightarrow> int \<Rightarrow> int list" where
  "py_range start stop step =
     (if (0 < step \<and> start < stop) \<or> (step < 0 \<and> stop < start)
      then start # py_range (start + step) stop step
      else [])"
  by pat_completeness auto
termination
  by (relation "measure (\<lambda>(start, stop, step). nat (if 0 < step then stop - start else start - stop))")
     auto

section \<open>Shaper/Measurer\<close>

text \<open>
  The text-shaping engine and the rasterizer are external. One \<open>glyph\<close> is what they
  return for one shaped glyph at one pixel size: the glyph id (\<open>info.codepoint\<close>), the
  position record of the shaper in font design units, and the rendered bitmap with its
  bearings. \<open>glyph_name\<close> is the result of \<open>face.get_glyph_name\<close>, \<open>None\<close> when it
  raises. The integers of a glyph are C integers of 32 bits in the two libraries; their
  conversion to a float, \<open>float_of_int\<close>, cannot overflow.
\<close>

record glyph =
  glyph_id :: nat
  x_advance :: int
  y_advance :: int
  x_offset :: int
  y_offset :: int
  bitmap_left :: int
  bitmap_top :: int
  bitmap_width :: int
  bitmap_rows :: int
  bitmap_buffer :: "8 word list"
  glyph_name :: "8 word list option"

text \<open>
  A font as the program sees it: \<open>hb_face.upem\<close>, and the run of glyphs that shaping
  \<open>text\<close> with \<open>features\<close> and rendering at \<open>px_size\<close> gives (lines 61 to 70 and the
  \<open>load_glyph\<close> call of each iteration): the pairs that \<open>zip(infos, positions)\<close>
  iterates over when \<open>positions\<close> is a list. The shaping engine reports a \<open>upem\<close>
  between 16 and 16384 (1000 for a font that declares none); the model keeps the division
  of line 71 as it is written, with its errors.
\<close>

record font =
  upem :: int
  shape_run :: "string \<Rightarrow> (string \<rightharpoonup> int) \<Rightarrow> int \<Rightarrow> glyph list"

text \<open>The dataclass \<open>GlyphPlacement\<close>; the fields carry the prefix \<open>gp_\<close>.\<close>

record glyph_placement =
  gp_x :: pyfloat
  gp_y :: pyfloat
  gp_width :: int
  gp_height :: int
  gp_buffer :: "8 word list"

text \<open>\<open>str(n)\<close> for a glyph id, and \<open>bytes.decode("ascii", "ignore")\<close>.\<close>

fun str_nat :: "nat \<Rightarrow> string" where
  "str_nat n =
     (if n < 10 then [char_of (48 + n)]
      else str_nat (n div 10) @ [char_of (48 + n mod 10)])"

definition decode_ascii_ignore :: "8 word list \<Rightarrow> string" where
  "decode_ascii_ignore bs = map (\<lambda>b. char_of (unat b)) (filter (\<lambda>b. unat b < 128) bs)"

definition name_of_glyph :: "glyph \<Rightarrow> string" where
  "name_of_glyph g =
     (case glyph_name g of
        Some bs \<Rightarrow> decode_ascii_ignore bs
      | None \<Rightarrow> str_nat (glyph_id g))"

text \<open>The local variables of \<open>shape_and_measure\<close> that the loop updates.\<close>

record measure_state =
  pen_x :: pyfloat
  placements :: "glyph_placement list"
  min_x :: pyfloat
  min_y :: pyfloat
  max_x :: pyfloat
  max_y :: pyfloat
  glyph_names :: "string list"

definition initial_state :: measure_state where
  "initial_state =
     \<lparr>pen_x = float_lit 0, placements = [],
      min_x = PInf, min_y = PInf, max_x = NInf, max_y = NInf,
      glyph_names = []\<rparr>"

text \<open>The draw position of a glyph (lines 89 to 93).\<close>

definition glyph_gx :: "pyfloat \<Rightarrow> pyfloat \<Rightarrow> glyph \<Rightarrow> pyfloat" where
  "glyph_gx scale pen g =
     fadd (fadd pen (fmul (float_of_int (x_offset g)) scale)) (float_of_int (bitmap_left g))"

definition glyph_gy :: "pyfloat \<Rightarrow> glyph \<Rightarrow> pyfloat" where
  "glyph_gy scale g =
     fsub (fneg (fmul (float_of_int (y_offset g)) scale)) (float_of_int (bitmap_top g))"

text \<open>One iteration of the loop (lines 82 to 115).\<close>

definition glyph_step :: "pyfloat \<Rightarrow> measure_state \<Rightarrow> glyph \<Rightarrow> measure_state" where
  "glyph_step scale st g =
     (let gx = glyph_gx scale (pen_x st) g;
          gy = glyph_gy scale g;
          st1 = (if 0 < bitmap_width g \<and> 0 < bitmap_rows g
                 then st\<lparr>min_x := py_min (min_x st) gx,
                         min_y := py_min (min_y st) gy,
                         max_x := py_max (max_x st) (fadd gx (float_of_int (bitmap_width g))),
                         max_y := py_max (max_y st) (fadd gy (float_of_int (bitmap_rows g)))\<rparr>
                 else st)
      in st1\<lparr>placements := placements st1 @
                 [\<lparr>gp_x = gx, gp_y = gy, gp_width = bitmap_width g,
                   gp_height = bitmap_rows g, gp_buffer = bitmap_buffer g\<rparr>],
              glyph_names := glyph_names st1 @ [name_of_glyph g],
              pen_x := fadd (pen_x st1) (fmul (float_of_int (x_advance g)) scale)\<rparr>)"

fun glyph_loop :: "pyfloat \<Rightarrow> measure_state \<Rightarrow> glyph list \<Rightarrow> measure_state" where
  "glyph_loop scale st [] = st"
| "glyph_loop scale st (g # gs) = glyph_loop scale (glyph_step scale st g) gs"

type_synonym bbox = "pyfloat \<times> pyfloat \<times> pyfloat \<times> pyfloat"

type_synonym shaped = "bbox \<times> glyph_placement list \<times> string list"

text \<open>
  \<open>shape_and_measure\<close>: \<open>Inr None\<close> is the return value \<open>None\<close> (EMPTY).

  For the empty text nothing is added to the buffer of the shaping engine, and its Python
  binding returns \<open>None\<close>, not an empty list, as \<open>buf.glyph_positions\<close>; the
  \<open>zip(infos, positions)\<close> of line 81 then raises a \<open>TypeError\<close>, after the division of
  line 71. For every other text \<open>positions\<close> is a list, which may be empty.
\<close>

definition shape_and_measure ::
  "font \<Rightarrow> string \<Rightarrow> (string \<rightharpoonup> int) \<Rightarrow> int \<Rightarrow> error + shaped option" where
  "shape_and_measure fnt txt feats px_size =
     (let glyphs = shape_run fnt txt feats px_size in
      case int_truediv px_size (upem fnt) of
        Inl e \<Rightarrow> Inl e
      | Inr scale \<Rightarrow>
          if txt = [] then Inl PositionsNotIterable
          else
            (let st = glyph_loop scale initial_state glyphs in
             if feq (min_x st) PInf then Inr None
             else Inr (Some ((min_x st, min_y st, max_x st, max_y st),
                             placements st, glyph_names st))))"

section \<open>Mask Builder\<close>

text \<open>
  The image library, and the file system behind it, are external, and a call of them may
  raise: \<open>Image.new\<close> on a negative width or height, \<open>Image.frombytes\<close> on a buffer
  whose length does not match the width and the height, \<open>ellipse\<close> on a box whose
  second corner is left of or above the first, \<open>save\<close> on a path that cannot be written.
  Which calls raise is a parameter of the model: a \<open>library\<close> is the predicate that holds
  of the calls it refuses. The calls carry the arguments that the program computes.
\<close>

datatype library_call =
    NewImage string int int
  | FromBytes int int "8 word list"
  | PasteAt int int
  | DrawEllipse int int int int
  | GaussianBlur pyfloat
  | MakeParentDirs string
  | SaveImage string

type_synonym library = "library_call \<Rightarrow> bool"

text \<open>
  A mask is described by its size and by the pastes made into it, in order: the position
  and the glyph image of each.
\<close>

record paste =
  paste_x :: int
  paste_y :: int
  paste_width :: int
  paste_height :: int
  paste_buffer :: "8 word list"

record mask =
  mask_width :: int
  mask_height :: int
  mask_pastes :: "paste list"

text \<open>The loop of lines 130 to 136.\<close>

fun paste_loop ::
  "library \<Rightarrow> pyfloat \<Rightarrow> pyfloat \<Rightarrow> glyph_placement list \<Rightarrow> error + paste list" where
  "paste_loop lib mx my [] = Inr []"
| "paste_loop lib mx my (p # ps) =
     (if gp_width p \<le> 0 \<or> gp_height p \<le> 0 then paste_loop lib mx my ps
      else if lib (FromBytes (gp_width p) (gp_height p) (gp_buffer p))
      then Inl ImageLibraryError
      else (case py_round (fsub (gp_x p) mx) of
              Inl e \<Rightarrow> Inl e
            | Inr x \<Rightarrow>
                (case py_round (fsub (gp_y p) my) of
                   Inl e \<Rightarrow> Inl e
                 | Inr y \<Rightarrow>
                     if lib (PasteAt x y) then Inl ImageLibraryError
                     else (case paste_loop lib mx my ps of
                             Inl e \<Rightarrow> Inl e
                           | Inr rest \<Rightarrow>
                               Inr (\<lparr>paste_x = x, paste_y = y, paste_width = gp_width p,
                                     paste_height = gp_height p,
                                     paste_buffer = gp_buffer p\<rparr>
                                    # rest)))))"

definition make_text_mask ::
  "library \<Rightarrow> bbox \<Rightarrow> glyph_placement list \<Rightarrow> error + (mask \<times> (int \<times> int))" where
  "make_text_mask lib bbox pls =
     (case bbox of (mnx, mny, mxx, mxy) \<Rightarrow>
        (case py_round (fsub mxx mnx) of
           Inl e \<Rightarrow> Inl e
         | Inr rw \<Rightarrow>
             (case py_round (fsub mxy mny) of
                Inl e \<Rightarrow> Inl e
              | Inr rh \<Rightarrow>
                  (let text_width = max 1 rw; text_height = max 1 rh in
                   if lib (NewImage ''L'' text_width text_height) then Inl ImageLibraryError
                   else (case paste_loop lib mnx mny pls of
                           Inl e \<Rightarrow> Inl e
                         | Inr ps \<Rightarrow>
                             Inr (\<lparr>mask_width = text_width, mask_height = text_height,
                                   mask_pastes = ps\<rparr>,
                                  (text_width, text_height)))))))"

section \<open>Auto-Fit Search and Avatar Compositor\<close>

text \<open>
  What \<open>build_avatar\<close> and \<open>main\<close> do to the outside world, in order: the font is
  opened (lines 157 to 161), \<open>shape_and_measure\<close> is called at a pixel size, the text
  mask is built, the canvas is created for a shape, the glow and the foreground are
  pasted at the text position, the parent directory of the output is created, the image
  is saved, the summary is printed. The pixels themselves belong to the image library.
  An effect after the mask is there when the library has accepted the calls that make it
  up.
\<close>

type_synonym rgba = "int \<times> int \<times> int \<times> int"

datatype effect =
    FontLoaded string
  | Shaped int
  | MaskBuilt int int
  | CircleCanvas int int rgba
  | SquareCanvas int rgba
  | GlowPasted int int
  | ForegroundPasted int int
  | ParentDirCreated string
  | FileWritten string
  | SummaryPrinted string int

text \<open>A computation that has effects and may raise: the effects so far and the outcome.\<close>

type_synonym 'a run = "effect list \<times> (error + 'a)"

definition bind_run :: "'a run \<Rightarrow> ('a \<Rightarrow> 'b run) \<Rightarrow> 'b run" where
  "bind_run m f =
     (case m of
        (ev, Inl e) \<Rightarrow> (ev, Inl e)
      | (ev, Inr v) \<Rightarrow> (case f v of (ev', r) \<Rightarrow> (ev @ ev', r)))"

text \<open>The keyword arguments of \<open>build_avatar\<close>.\<close>

record avatar_args =
  arg_font_path :: string
  arg_output_path :: string
  arg_text :: string
  arg_features :: "string \<rightharpoonup> int"
  arg_shape :: string
  arg_size :: int
  arg_margin :: int
  arg_bg_color :: rgba
  arg_fg_color :: rgba
  arg_glow_color :: rgba
  arg_glow_blur :: pyfloat
  arg_fit_width_ratio :: pyfloat
  arg_fit_height_ratio :: pyfloat

text \<open>The outside world: which paths exist, the font a path loads as, if it does, and
  the calls that the image library and the file system refuse.\<close>

record env =
  path_exists :: "string \<Rightarrow> bool"
  load_font :: "string \<Rightarrow> font option"
  refuses :: library

text \<open>Lines 166 to 168 and the \<open>range\<close> of line 171. The canvas size is an arbitrary
  \<open>int\<close>: its conversion in \<open>size * 0.70\<close> can raise.\<close>

definition max_px :: "int \<Rightarrow> error + int" where
  "max_px sz =
     (case float_of_pyint sz of
        Inl e \<Rightarrow> Inl e
      | Inr f \<Rightarrow>
          (case py_trunc (fmul f (float_lit (70 / 100))) of
             Inl e \<Rightarrow> Inl e
           | Inr v \<Rightarrow> Inr (max 220 v)))"

definition min_px :: "int \<Rightarrow> error + int" where
  "min_px sz =
     (case float_of_pyint sz of
        Inl e \<Rightarrow> Inl e
      | Inr f \<Rightarrow>
          (case py_trunc (fmul f (float_lit (8 / 100))) of
             Inl e \<Rightarrow> Inl e
           | Inr v \<Rightarrow> Inr (max 64 v)))"

definition step_px :: "int \<Rightarrow> error + int" where
  "step_px sz =
     (case int_truediv sz 170 of
        Inl e \<Rightarrow> Inl e
      | Inr q \<Rightarrow>
          (case py_trunc q of
             Inl e \<Rightarrow> Inl e
           | Inr v \<Rightarrow> Inr (max 2 v)))"

definition candidate_sizes :: "int \<Rightarrow> error + int list" where
  "candidate_sizes sz =
     (case max_px sz of
        Inl e \<Rightarrow> Inl e
      | Inr mx \<Rightarrow>
          (case min_px sz of
             Inl e \<Rightarrow> Inl e
           | Inr mn \<Rightarrow>
               (case step_px sz of
                  Inl e \<Rightarrow> Inl e
                | Inr st \<Rightarrow> Inr (py_range mx (mn - 1) (- st)))))"

type_synonym chosen = "int \<times> bbox \<times> glyph_placement list \<times> string list"

text \<open>Whether a shaped result fits the target box (lines 176 to 179).\<close>

definition fits :: "pyfloat \<Rightarrow> pyfloat \<Rightarrow> bbox \<Rightarrow> bool" where
  "fits target_w target_h bbox =
     (case bbox of (mnx, mny, mxx, mxy) \<Rightarrow>
        fle (fsub mxx mnx) target_w \<and> fle (fsub mxy mny) target_h)"

text \<open>The loop of lines 171 to 181 over the candidate sizes.\<close>

fun fit_loop ::
  "font \<Rightarrow> string \<Rightarrow> (string \<rightharpoonup> int) \<Rightarrow> pyfloat \<Rightarrow> pyfloat \<Rightarrow> int list \<Rightarrow> chosen option run"
where
  "fit_loop fnt txt feats target_w target_h [] = ([], Inr None)"
| "fit_loop fnt txt feats target_w target_h (px_size # rest) =
     (case shape_and_measure fnt txt feats px_size of
        Inl e \<Rightarrow> ([Shaped px_size], Inl e)
      | Inr None \<Rightarrow>
          bind_run ([Shaped px_size], Inr ())
            (\<lambda>_. fit_loop fnt txt feats target_w target_h rest)
      | Inr (Some (bbox, pls, names)) \<Rightarrow>
          if fits target_w target_h bbox
          then ([Shaped px_size], Inr (Some (px_size, bbox, pls, names)))
          else bind_run ([Shaped px_size], Inr ())
                 (\<lambda>_. fit_loop fnt txt feats target_w target_h rest))"

text \<open>Lines 183 to 188: the fallback when the loop chose nothing.\<close>

definition fallback :: "font \<Rightarrow> string \<Rightarrow> (string \<rightharpoonup> int) \<Rightarrow> chosen option \<Rightarrow> chosen run" where
  "fallback fnt txt feats ch =
     (case ch of
        Some c \<Rightarrow> ([], Inr c)
      | None \<Rightarrow>
          (case shape_and_measure fnt txt feats 220 of
             Inl e \<Rightarrow> ([Shaped 220], Inl e)
           | Inr None \<Rightarrow> ([Shaped 220], Inl NoDrawableGlyphs)
           | Inr (Some (bbox, pls, names)) \<Rightarrow> ([Shaped 220], Inr (220, bbox, pls, names))))"

text \<open>One step of the composition: the calls of the library that make it up, in order.
  If the library refuses one of them the step raises; otherwise the step has its effect.\<close>

definition perform :: "library \<Rightarrow> library_call list \<Rightarrow> effect \<Rightarrow> unit run" where
  "perform lib calls eff =
     (if list_ex lib calls then ([], Inl ImageLibraryError) else ([eff], Inr ()))"

text \<open>Lines 193 to 203: the canvas for a shape.\<close>

definition canvas_for :: "library \<Rightarrow> avatar_args \<Rightarrow> unit run" where
  "canvas_for lib a =
     (if arg_shape a = ''circle''
      then perform lib
             [NewImage ''RGBA'' (arg_size a) (arg_size a),
              NewImage ''L'' (arg_size a) (arg_size a),
              DrawEllipse (arg_margin a) (arg_margin a)
                (arg_size a - arg_margin a) (arg_size a - arg_margin a),
              NewImage ''RGBA'' (arg_size a) (arg_size a),
              PasteAt 0 0]
             (CircleCanvas (arg_size a) (arg_margin a) (arg_bg_color a))
      else if arg_shape a = ''square''
      then perform lib [NewImage ''RGBA'' (arg_size a) (arg_size a)]
             (SquareCanvas (arg_size a) (arg_bg_color a))
      else ([], Inl UnsupportedShape))"

text \<open>Lines 190 to 219: mask, canvas, glow, foreground, output.\<close>

definition compose :: "env \<Rightarrow> avatar_args \<Rightarrow> chosen \<Rightarrow> (int \<times> string list) run" where
  "compose ev a ch =
     (case ch of (font_px, bbox, pls, names) \<Rightarrow>
        (case make_text_mask (refuses ev) bbox pls of
           Inl e \<Rightarrow> ([], Inl e)
         | Inr (text_mask, (text_width, text_height)) \<Rightarrow>
             bind_run ([MaskBuilt text_width text_height], Inr ())
               (\<lambda>_. bind_run (canvas_for (refuses ev) a)
                  (\<lambda>_. let text_x = (arg_size a - text_width) div 2;
                            text_y = (arg_size a - text_height) div 2
                        in bind_run
                             (if flt (float_of_int 0) (arg_glow_blur a)
                                 \<and> 0 < snd (snd (snd (arg_glow_color a)))
                              then perform (refuses ev)
                                     [GaussianBlur (arg_glow_blur a),
                                      NewImage ''RGBA'' text_width text_height,
                                      PasteAt text_x text_y]
                                     (GlowPasted text_x text_y)
                              else ([], Inr ()))
                             (\<lambda>_. bind_run
                                (perform (refuses ev)
                                   [NewImage ''RGBA'' text_width text_height,
                                    PasteAt text_x text_y]
                                   (ForegroundPasted text_x text_y))
                                (\<lambda>_. bind_run
                                   (perform (refuses ev)
                                      [MakeParentDirs (arg_output_path a)]
                                      (ParentDirCreated (arg_output_path a)))
                                   (\<lambda>_. bind_run
                                      (perform (refuses ev)
                                         [SaveImage (arg_output_path a)]
                                         (FileWritten (arg_output_path a)))
                                      (\<lambda>_. ([], Inr (font_px, names))))))))))"

text \<open>\<open>build_avatar\<close>; lines 163 and 164 convert the canvas size first.\<close>

definition build_avatar :: "env \<Rightarrow> avatar_args \<Rightarrow> (int \<times> string list) run" where
  "build_avatar ev a =
     (case load_font ev (arg_font_path a) of
        None \<Rightarrow> ([], Inl FontLoadError)
      | Some fnt \<Rightarrow>
          bind_run ([FontLoaded (arg_font_path a)], Inr ())
            (\<lambda>_. bind_run ([], float_of_pyint (arg_size a))
               (\<lambda>size_f.
                  let target_w = fmul size_f (arg_fit_width_ratio a);
                      target_h = fmul size_f (arg_fit_height_ratio a)
                  in bind_run ([], candidate_sizes (arg_size a))
                       (\<lambda>cands. bind_run
                          (fit_loop fnt (arg_text a) (arg_features a) target_w target_h cands)
                          (\<lambda>ch. bind_run (fallback fnt (arg_text a) (arg_features a) ch)
                                  (compose ev a))))))"

section \<open>CLI Driver\<close>

text \<open>
  The command line after the conversions of the argument parser (\<open>type=int\<close>,
  \<open>type=float\<close>), before its check of \<open>choices\<close>.
\<close>

record cli =
  cli_font :: string
  cli_output :: string
  cli_text :: string
  cli_features :: string
  cli_shape :: string
  cli_size :: int
  cli_margin :: int
  cli_fit_width_ratio :: pyfloat
  cli_fit_height_ratio :: pyfloat
  cli_bg :: string
  cli_fg :: string
  cli_glow :: string
  cli_glow_alpha :: int
  cli_glow_blur :: pyfloat

text \<open>\<open>parse_args\<close>: \<open>--shape\<close> is declared with \<open>choices=["circle", "square"]\<close>, so the
  parser exits on every other value.\<close>

definition parse_args :: "cli \<Rightarrow> error + cli" where
  "parse_args c =
     (if cli_shape c = ''circle'' \<or> cli_shape c = ''square'' then Inr c else Inl InvalidChoice)"

definition main :: "env \<Rightarrow> cli \<Rightarrow> unit run" where
  "main ev c =
     bind_run ([], parse_args c)
       (\<lambda>args. bind_run ([], parse_features (cli_features args))
          (\<lambda>features.
             if \<not> path_exists ev (cli_font args) then ([], Inl FontNotFound)
             else bind_run ([], parse_color (cli_bg args) 255)
               (\<lambda>bg. bind_run ([], parse_color (cli_fg args) 255)
                  (\<lambda>fg. bind_run
                     ([], parse_color (cli_glow args) (max 0 (min 255 (cli_glow_alpha args))))
                     (\<lambda>glow. bind_run
                        (build_avatar ev
                           \<lparr>arg_font_path = cli_font args, arg_output_path = cli_output args,
                            arg_text = cli_text args, arg_features = features,
                            arg_shape = cli_shape args, arg_size = cli_size args,
                            arg_margin = cli_margin args, arg_bg_color = bg,
                            arg_fg_color = fg, arg_glow_color = glow,
                            arg_glow_blur = cli_glow_blur args,
                            arg_fit_width_ratio = cli_fit_width_ratio args,
                            arg_fit_height_ratio = cli_fit_height_ratio args\<rparr>)
                        (\<lambda>(font_px, names).
                           ([SummaryPrinted (cli_output args) font_px], Inr ())))))))"

section \<open>Notions used in the statements and proofs\<close>

text \<open>A finite float.\<close>

fun is_fin :: "pyfloat \<Rightarrow> bool" where
  "is_fin (Fin _) = True"
| "is_fin _ = False"

text \<open>A hexadecimal digit: a character whose digit value is below 16.\<close>

definition is_hex :: "char \<Rightarrow> bool" where
  "is_hex c = (digit_value c < 16)"

text \<open>The pen after one glyph (line 115) and after a run of glyphs, from \<open>pen_x = 0.0\<close>.\<close>

definition advance_pen :: "pyfloat \<Rightarrow> pyfloat \<Rightarrow> glyph \<Rightarrow> pyfloat" where
  "advance_pen scale pen g = fadd pen (fmul (float_of_int (x_advance g)) scale)"

definition pen_after :: "pyfloat \<Rightarrow> glyph list \<Rightarrow> pyfloat" where
  "pen_after scale gs = foldl (advance_pen scale) (float_lit 0) gs"

text \<open>The test of line 95 on a glyph, and the same test on a placement.\<close>

definition drawable :: "glyph \<Rightarrow> bool" where
  "drawable g = (0 < bitmap_width g \<and> 0 < bitmap_rows g)"

definition drawable_placement :: "glyph_placement \<Rightarrow> bool" where
  "drawable_placement p = (0 < gp_width p \<and> 0 < gp_height p)"

text \<open>The placements the loop appends, as a function of the pen it starts with.\<close>

fun placements_from :: "pyfloat \<Rightarrow> pyfloat \<Rightarrow> glyph list \<Rightarrow> glyph_placement list" where
  "placements_from scale pen [] = []"
| "placements_from scale pen (g # gs) =
     \<lparr>gp_x = glyph_gx scale pen g, gp_y = glyph_gy scale g,
      gp_width = bitmap_width g, gp_height = bitmap_rows g, gp_buffer = bitmap_buffer g\<rparr>
     # placements_from scale (advance_pen scale pen g) gs"

text \<open>Two glyphs that differ at most in \<open>y_advance\<close>.\<close>

definition same_but_y_advance :: "glyph \<Rightarrow> glyph \<Rightarrow> bool" where
  "same_but_y_advance g h = (h = g\<lparr>y_advance := y_advance h\<rparr>)"

text \<open>Whether the loop of lines 171 to 181 accepts a pixel size.\<close>

definition accepts ::
  "font \<Rightarrow> string \<Rightarrow> (string \<rightharpoonup> int) \<Rightarrow> pyfloat \<Rightarrow> pyfloat \<Rightarrow> int \<Rightarrow> bool" where
  "accepts fnt txt feats target_w target_h px_size =
     (case shape_and_measure fnt txt feats px_size of
        Inr (Some (bbox, pls, names)) \<Rightarrow> fits target_w target_h bbox
      | _ \<Rightarrow> False)"

text \<open>
  A font for the examples: 1000 units per em; every character advances by 600 units;
  a space has an empty bitmap, every other character a bitmap \<open>px div 2\<close> wide and
  \<open>px\<close> high that stands on the baseline, with one byte for every pixel.
\<close>

definition demo_glyph :: "int \<Rightarrow> char \<Rightarrow> glyph" where
  "demo_glyph px c =
     \<lparr>glyph_id = of_char c, x_advance = 600, y_advance = 0, x_offset = 0, y_offset = 0,
      bitmap_left = 0, bitmap_top = (if c = CHR '' '' then 0 else px),
      bitmap_width = (if c = CHR '' '' then 0 else px div 2),
      bitmap_rows = (if c = CHR '' '' then 0 else px),
      bitmap_buffer = (if c = CHR '' '' then [] else replicate (nat (px div 2 * px)) 255),
      glyph_name = None\<rparr>"

definition demo_font :: font where
  "demo_font = \<lparr>upem = 1000, shape_run = (\<lambda>txt feats px. map (demo_glyph px) txt)\<rparr>"

text \<open>The effects after the mask: canvas, pastes, directory, file, summary.\<close>

fun is_output_effect :: "effect \<Rightarrow> bool" where
  "is_output_effect (FontLoaded _) = False"
| "is_output_effect (Shaped _) = False"
| "is_output_effect (MaskBuilt _ _) = False"
| "is_output_effect _ = True"

text \<open>An image library for the examples: it refuses an image of negative width or height,
  a glyph buffer whose length is not the width times the height, and an ellipse whose box
  has its second corner left of or above the first.\<close>

fun demo_library :: library where
  "demo_library (NewImage mode w h) = (w < 0 \<or> h < 0)"
| "demo_library (FromBytes w h buffer) = (int (length buffer) \<noteq> w * h)"
| "demo_library (DrawEllipse x0 y0 x1 y1) = (x1 < x0 \<or> y1 < y0)"
| "demo_library _ = False"

text \<open>An outside world that holds the example font, the arguments of a default run on the
  text \<open>A\<close>, and the same run as a command line.\<close>

definition demo_env :: env where
  "demo_env =
     \<lparr>path_exists = (\<lambda>p. p = ''demo.ttf''),
      load_font = (\<lambda>p. if p = ''demo.ttf'' then Some demo_font else None),
      refuses = demo_library\<rparr>"

definition demo_args :: avatar_args where
  "demo_args =
     \<lparr>arg_font_path = ''demo.ttf'', arg_output_path = ''out.png'', arg_text = ''A'',
      arg_features = Map.empty, arg_shape = ''circle'', arg_size = 1024, arg_margin = 72,
      arg_bg_color = (46, 52, 64, 255), arg_fg_color = (136, 192, 208, 255),
      arg_glow_color = (94, 129, 172, 190), arg_glow_blur = Fin 8,
      arg_fit_width_ratio = float_lit (72 / 100),
      arg_fit_height_ratio = float_lit (36 / 100)\<rparr>"

definition demo_cli :: cli where
  "demo_cli =
     \<lparr>cli_font = ''demo.ttf'', cli_output = ''out.png'', cli_text = ''A'',
      cli_features = ''calt=1,liga=0'', cli_shape = ''circle'', cli_size = 1024,
      cli_margin = 72, cli_fit_width_ratio = float_lit (72 / 100),
      cli_fit_height_ratio = float_lit (36 / 100), cli_bg = ''#2E3440'', cli_fg = ''#88C0D0'',
      cli_glow = ''#5E81AC'', cli_glow_alpha = 190, cli_glow_blur = Fin 8\<rparr>"

section \<open>Verification: Feature Spec Parser\<close>

lemma features_loop_absent:
  "features_loop items f = Inr m \<Longrightarrow>
   (\<forall>item \<in> set items. \<forall>w. feature_item item \<noteq> Inr (Some (t, w))) \<Longrightarrow> m t = f t"
proof (induction items arbitrary: f)
  case Nil
  then show ?case by simp
next
  case (Cons item items)
  show ?case
  proof (cases "feature_item item")
    case (Inl e)
    with Cons.prems(1) show ?thesis by simp
  next
    case (Inr r)
    show ?thesis
    proof (cases r)
      case None
      with Inr Cons show ?thesis by simp
    next
      case (Some kv)
      obtain k w where kv: "kv = (k, w)" by (cases kv)
      from Cons.prems(2) Inr Some kv have kt: "k \<noteq> t" by auto
      from Cons.prems(1) Inr Some kv
      have "features_loop items (f(k \<mapsto> w)) = Inr m" by simp
      then have "m t = (f(k \<mapsto> w)) t"
        by (rule Cons.IH) (use Cons.prems(2) in simp)
      with kt show ?thesis by simp
    qed
  qed
qed

lemma features_loop_last:
  "features_loop items f = Inr m \<Longrightarrow> i < length items \<Longrightarrow>
   feature_item (items ! i) = Inr (Some (t, v)) \<Longrightarrow>
   (\<forall>j. i < j \<and> j < length items \<longrightarrow> (\<forall>w. feature_item (items ! j) \<noteq> Inr (Some (t, w)))) \<Longrightarrow>
   m t = Some v"
proof (induction items arbitrary: f i)
  case Nil
  then show ?case by simp
next
  case (Cons item items)
  show ?case
  proof (cases i)
    case 0
    with Cons.prems(3) have it: "feature_item item = Inr (Some (t, v))" by simp
    with Cons.prems(1) have loop: "features_loop items (f(t \<mapsto> v)) = Inr m" by simp
    have "\<forall>x \<in> set items. \<forall>w. feature_item x \<noteq> Inr (Some (t, w))"
    proof
      fix x assume "x \<in> set items"
      then obtain j where j: "j < length items" "items ! j = x" by (auto simp: in_set_conv_nth)
      with Cons.prems(4) 0 have "\<forall>w. feature_item ((item # items) ! Suc j) \<noteq> Inr (Some (t, w))"
        by (metis length_Cons not_less_eq zero_less_Suc)
      with j show "\<forall>w. feature_item x \<noteq> Inr (Some (t, w))" by simp
    qed
    with features_loop_absent [OF loop] show ?thesis by simp
  next
    case (Suc i')
    from Cons.prems(1) obtain f' where loop: "features_loop items f' = Inr m"
      by (auto split: sum.splits option.splits)
    have later: "\<forall>j. i' < j \<and> j < length items \<longrightarrow>
        (\<forall>w. feature_item (items ! j) \<noteq> Inr (Some (t, w)))"
    proof (intro allI impI)
      fix j w assume "i' < j \<and> j < length items"
      with Cons.prems(4) Suc have "\<forall>w. feature_item ((item # items) ! Suc j) \<noteq> Inr (Some (t, w))"
        by (metis Suc_less_eq length_Cons)
      then show "feature_item (items ! j) \<noteq> Inr (Some (t, w))" by simp
    qed
    from Cons.prems(2,3) Suc show ?thesis
      using Cons.IH [OF loop _ _ later, of] by simp
  qed
qed

text \<open>
  Claim C10. Whenever \<open>parse_features\<close> returns a mapping, the value it holds for a tag is
  the value of the last item of the comma-separated text that stores this tag: an item at
  position \<open>i\<close> that stores \<open>(tag, v)\<close> and is followed by no item storing the same tag
  decides the entry, whatever earlier items stored for it.
\<close>

theorem parse_features_last_occurrence:
  assumes "parse_features features_text = Inr m"
    and "items = split_on (CHR '','') features_text"
    and "i < length items"
    and "feature_item (items ! i) = Inr (Some (tag, v))"
    and "\<forall>j. i < j \<and> j < length items \<longrightarrow> (\<forall>w. feature_item (items ! j) \<noteq> Inr (Some (tag, w)))"
  shows "m tag = Some v"
  using assms features_loop_last [of items Map.empty m i tag v]
  by (simp add: parse_features_def)

lemma items_example:
  "split_on (CHR '','') ''liga=0,calt,liga=1'' = [''liga=0'', ''calt'', ''liga=1'']"
  by simp

lemma feature_item_examples:
  "feature_item ''liga=0'' = Inr (Some (''liga'', 0))"
  "feature_item ''calt'' = Inr (Some (''calt'', 1))"
  "feature_item ''liga=1'' = Inr (Some (''liga'', 1))"
  by code_simp+

text \<open>Witness for C10: the tag \<open>liga\<close> occurs in the first and in the third item.\<close>

theorem parse_features_last_occurrence_witness:
  "\<exists>m. parse_features ''liga=0,calt,liga=1'' = Inr m \<and> m ''liga'' = Some 1"
proof -
  have pf: "parse_features ''liga=0,calt,liga=1'' =
      Inr [''liga'' \<mapsto> 0, ''calt'' \<mapsto> 1, ''liga'' \<mapsto> 1]"
    unfolding parse_features_def items_example by (simp add: feature_item_examples)
  have "[''liga'' \<mapsto> 0, ''calt'' \<mapsto> 1, ''liga'' \<mapsto> (1::int)] ''liga'' = Some 1"
    using parse_features_last_occurrence [OF pf items_example [symmetric], of 2 "''liga''" 1]
    by (simp add: feature_item_examples)
  with pf show ?thesis by blast
qed

section \<open>Verification: Color Parser\<close>

text \<open>
  The first half of claim C3 holds: six hexadecimal digits, with or without a leading
  \<open>#\<close>, give the three channels exactly, each between 0 and 255.
\<close>

lemma is_hex_not_special:
  assumes "is_hex c"
  shows "\<not> is_space c" "\<not> is_int_space c" "c \<noteq> CHR ''#''" "c \<noteq> CHR ''+''" "c \<noteq> CHR ''-''"
    "c \<noteq> CHR ''_''" "c \<noteq> CHR ''x''" "c \<noteq> CHR ''X''"
proof -
  show "\<not> is_space c" "\<not> is_int_space c"
    using assms by (auto simp: is_hex_def digit_value_def is_space_def is_int_space_def Let_def
        split: if_splits)
  have "\<not> is_hex CHR ''#''" "\<not> is_hex CHR ''+''" "\<not> is_hex CHR ''-''" "\<not> is_hex CHR ''_''"
    "\<not> is_hex CHR ''x''" "\<not> is_hex CHR ''X''"
    by (simp_all add: is_hex_def digit_value_def)
  with assms show "c \<noteq> CHR ''#''" "c \<noteq> CHR ''+''" "c \<noteq> CHR ''-''"
    "c \<noteq> CHR ''_''" "c \<noteq> CHR ''x''" "c \<noteq> CHR ''X''" by auto
qed

lemma py_int_hex_pair:
  assumes "is_hex a" "is_hex b"
  shows "py_int 16 [a, b] = Inr (int (digit_value a * 16 + digit_value b))"
  using assms is_hex_not_special [OF assms(1)] is_hex_not_special [OF assms(2)]
  by (simp add: py_int_def is_hex_def)

lemma strip_hex:
  assumes "is_hex a" "is_hex f"
  shows "strip (a # s @ [f]) = a # s @ [f]"
  using is_hex_not_special(1) [OF assms(1)] is_hex_not_special(1) [OF assms(2)]
  by (simp add: strip_def)

lemma strip_hash_hex:
  assumes "is_hex f"
  shows "strip (CHR ''#'' # s @ [f]) = CHR ''#'' # s @ [f]"
  using is_hex_not_special(1) [OF assms]
  by (simp add: strip_def is_space_def)

lemma parse_color_hex:
  assumes "is_hex a" "is_hex b" "is_hex c" "is_hex d" "is_hex e" "is_hex f"
  shows "parse_color [a, b, c, d, e, f] alpha =
       Inr (int (digit_value a * 16 + digit_value b), int (digit_value c * 16 + digit_value d),
            int (digit_value e * 16 + digit_value f), alpha)"
    and "parse_color (CHR ''#'' # [a, b, c, d, e, f]) alpha =
       Inr (int (digit_value a * 16 + digit_value b), int (digit_value c * 16 + digit_value d),
            int (digit_value e * 16 + digit_value f), alpha)"
    and "digit_value a * 16 + digit_value b \<le> 255"
proof -
  have s1: "strip [a, b, c, d, e, f] = [a, b, c, d, e, f]"
    using strip_hex [OF assms(1,6), of "[b, c, d, e]"] by simp
  have s2: "strip (CHR ''#'' # [a, b, c, d, e, f]) = CHR ''#'' # [a, b, c, d, e, f]"
    using strip_hash_hex [OF assms(6), of "[a, b, c, d, e]"] by simp
  note p = py_int_hex_pair [OF assms(1,2)] py_int_hex_pair [OF assms(3,4)]
    py_int_hex_pair [OF assms(5,6)]
  show "parse_color [a, b, c, d, e, f] alpha =
       Inr (int (digit_value a * 16 + digit_value b), int (digit_value c * 16 + digit_value d),
            int (digit_value e * 16 + digit_value f), alpha)"
    unfolding parse_color_def s1 using is_hex_not_special(3) [OF assms(1)] by (simp add: p)
  show "parse_color (CHR ''#'' # [a, b, c, d, e, f]) alpha =
       Inr (int (digit_value a * 16 + digit_value b), int (digit_value c * 16 + digit_value d),
            int (digit_value e * 16 + digit_value f), alpha)"
    unfolding parse_color_def s2 by (simp add: p)
  show "digit_value a * 16 + digit_value b \<le> 255"
    using assms(1,2) by (simp add: is_hex_def)
qed

text \<open>
  Claim C3. The claim says that every string that is not six hexadecimal digits (after
  the optional \<open>#\<close>) is refused. The strings \<open>+1+2+3\<close> and \<open>-1-2-3\<close> have six
  characters, none of the two is a hexadecimal number, and \<open>parse_color\<close> returns a
  color for both: each pair is read by \<open>int(pair, 16)\<close>, which accepts a sign. The
  second result has negative channels.
\<close>

theorem parse_color_signed_pairs:
  "parse_color ''+1+2+3'' 255 = Inr (1, 2, 3, 255) \<and>
   parse_color ''-1-2-3'' 255 = Inr (- 1, - 2, - 3, 255)"
  by code_simp

section \<open>Verification: rounding\<close>

lemma pow2_powi: "pow2 e = 2 powi e"
  by (simp add: pow2_def power_int_def power_one_over inverse_eq_divide)

lemma pow2_pos [simp]: "0 < pow2 e"
  by (simp add: pow2_powi)

lemma pow2_nonneg [simp]: "0 \<le> pow2 e"
  using pow2_pos [of e] by (rule less_imp_le)

lemma pow2_nonzero [simp]: "pow2 e \<noteq> 0"
  by (metis pow2_pos less_irrefl)

lemma pow2_add: "pow2 (a + b) = pow2 a * pow2 b"
  by (simp add: pow2_powi power_int_add)

lemma pow2_mono: "a \<le> b \<Longrightarrow> pow2 a \<le> pow2 b"
  by (simp add: pow2_powi power_int_increasing)

lemma pow2_strict_mono: "a < b \<Longrightarrow> pow2 a < pow2 b"
  by (simp add: pow2_powi power_int_strict_increasing)

lemma pow2_nat: "0 \<le> e \<Longrightarrow> pow2 e = 2 ^ nat e"
  by (simp add: pow2_def)

lemma pow2_diff: "pow2 (a - b) = pow2 a / pow2 b"
proof -
  have "pow2 (a - b) * pow2 b = pow2 a" by (simp flip: pow2_add)
  then show ?thesis by (simp add: eq_divide_eq)
qed

lemma ilog2_bounds:
  assumes "0 < q"
  shows "pow2 (ilog2 q) \<le> q \<and> q < pow2 (ilog2 q + 1)"
proof -
  obtain p d where pd: "quotient_of q = (p, d)" by (cases "quotient_of q")
  have d: "0 < d" using quotient_of_denom_pos [OF pd] .
  have q: "q = of_int p / of_int d" using quotient_of_div [OF pd] .
  have p: "0 < p" using assms q d by (simp add: zero_less_divide_iff)
  define bp where "bp = bitlen p"
  define bd where "bd = bitlen d"
  from bitlen_bounds [OF p] have p1: "2 ^ nat (bp - 1) \<le> p" and p2: "p < 2 ^ nat bp"
    by (simp_all add: bp_def)
  from bitlen_bounds [OF d] have d1: "2 ^ nat (bd - 1) \<le> d" and d2: "d < 2 ^ nat bd"
    by (simp_all add: bd_def)
  have bp: "1 \<le> bp" using p by (simp add: bp_def bitlen_alt_def)
  have bd: "1 \<le> bd" using d by (simp add: bd_def bitlen_alt_def)
  have rp1: "pow2 (bp - 1) \<le> of_int p"
  proof -
    have "(of_int (2 ^ nat (bp - 1)) :: rat) \<le> of_int p" using p1 by (simp only: of_int_le_iff)
    then show ?thesis using bp by (simp add: pow2_nat)
  qed
  have rp2: "of_int p < pow2 bp"
  proof -
    have "(of_int p :: rat) < of_int (2 ^ nat bp)" using p2 by (simp only: of_int_less_iff)
    then show ?thesis using bp by (simp add: pow2_nat)
  qed
  have rd1: "pow2 (bd - 1) \<le> of_int d"
  proof -
    have "(of_int (2 ^ nat (bd - 1)) :: rat) \<le> of_int d" using d1 by (simp only: of_int_le_iff)
    then show ?thesis using bd by (simp add: pow2_nat)
  qed
  have rd2: "of_int d < pow2 bd"
  proof -
    have "(of_int d :: rat) < of_int (2 ^ nat bd)" using d2 by (simp only: of_int_less_iff)
    then show ?thesis using bd by (simp add: pow2_nat)
  qed
  have upper: "q < pow2 (bp - bd + 1)"
  proof -
    have "of_int p / of_int d < pow2 bp / pow2 (bd - 1)"
      using p rp2 rd1 by (intro frac_less) simp_all
    also have "\<dots> = pow2 (bp - (bd - 1))" by (simp add: pow2_diff)
    finally show ?thesis by (simp add: q algebra_simps)
  qed
  have lower: "pow2 (bp - bd - 1) \<le> q"
  proof -
    have "pow2 (bp - 1) / pow2 bd \<le> of_int p / of_int d"
      using p d rp1 rd2 by (intro frac_le) simp_all
    moreover have "pow2 (bp - 1) / pow2 bd = pow2 (bp - 1 - bd)" by (simp add: pow2_diff)
    ultimately show ?thesis by (simp add: q algebra_simps)
  qed
  have il: "ilog2 q = (if pow2 (bp - bd) \<le> q then bp - bd else bp - bd - 1)"
    by (simp add: ilog2_def pd bp_def bd_def Let_def)
  show ?thesis
  proof (cases "pow2 (bp - bd) \<le> q")
    case True
    with il upper show ?thesis by simp
  next
    case False
    with il lower show ?thesis by simp
  qed
qed

lemma ilog2_unique:
  assumes "pow2 a \<le> q" "q < pow2 (a + 1)"
  shows "ilog2 q = a"
proof -
  have q: "0 < q" using assms(1) pow2_pos [of a] by linarith
  note b = ilog2_bounds [OF q]
  show ?thesis
  proof (rule ccontr)
    assume ne: "ilog2 q \<noteq> a"
    show False
    proof (cases "ilog2 q < a")
      case True
      then have "pow2 (ilog2 q + 1) \<le> pow2 a" by (intro pow2_mono) simp
      with b assms show False by linarith
    next
      case False
      with ne have "pow2 (a + 1) \<le> pow2 (ilog2 q)" by (intro pow2_mono) simp
      with b assms show False by linarith
    qed
  qed
qed

lemma ilog2_mono:
  assumes "0 < x" "x \<le> y"
  shows "ilog2 x \<le> ilog2 y"
proof (rule ccontr)
  assume "\<not> ilog2 x \<le> ilog2 y"
  then have "pow2 (ilog2 y + 1) \<le> pow2 (ilog2 x)" by (intro pow2_mono) simp
  moreover have "0 < y" using assms by simp
  ultimately show False
    using ilog2_bounds [OF assms(1)] ilog2_bounds [OF \<open>0 < y\<close>] assms(2) by linarith
qed

lemma round_half_even_bounds:
  "of_int (round_half_even t) \<le> t + 1 / 2 \<and> t - 1 / 2 \<le> of_int (round_half_even t)"
proof -
  have a: "of_int \<lfloor>t\<rfloor> \<le> t" and b: "t < of_int \<lfloor>t\<rfloor> + 1" by linarith+
  consider (lo) "t - of_int \<lfloor>t\<rfloor> < 1 / 2" | (hi) "1 / 2 < t - of_int \<lfloor>t\<rfloor>"
    | (eq) "t - of_int \<lfloor>t\<rfloor> = 1 / 2" by linarith
  then show ?thesis
  proof cases
    case lo
    then have r: "round_half_even t = \<lfloor>t\<rfloor>" by (simp add: round_half_even_def Let_def)
    show ?thesis unfolding r using a lo by linarith
  next
    case hi
    then have r: "round_half_even t = \<lfloor>t\<rfloor> + 1" by (simp add: round_half_even_def Let_def)
    show ?thesis unfolding r of_int_add of_int_1 using b hi by linarith
  next
    case eq
    then have "round_half_even t = \<lfloor>t\<rfloor> \<or> round_half_even t = \<lfloor>t\<rfloor> + 1"
      by (simp add: round_half_even_def Let_def)
    then show ?thesis
    proof
      assume r: "round_half_even t = \<lfloor>t\<rfloor>"
      show ?thesis unfolding r using eq by linarith
    next
      assume r: "round_half_even t = \<lfloor>t\<rfloor> + 1"
      show ?thesis unfolding r of_int_add of_int_1 using eq by linarith
    qed
  qed
qed

lemma round_half_even_of_int [simp]: "round_half_even (of_int n) = n"
  by (simp add: round_half_even_def)

lemma round_half_even_mono:
  assumes "x \<le> y"
  shows "round_half_even x \<le> round_half_even y"
proof (rule ccontr)
  assume "\<not> round_half_even x \<le> round_half_even y"
  then have "round_half_even y + 1 \<le> round_half_even x" by simp
  then have "(of_int (round_half_even y) :: rat) + 1 \<le> of_int (round_half_even x)"
    by (metis of_int_1 of_int_add of_int_le_iff)
  with round_half_even_bounds [of x] round_half_even_bounds [of y] assms
  have "x = y" by linarith
  with \<open>\<not> round_half_even x \<le> round_half_even y\<close> show False by simp
qed

lemma round_half_even_minus: "round_half_even (- t) = - round_half_even t"
proof (cases "t = of_int \<lfloor>t\<rfloor>")
  case True
  then have "- t = of_int (- \<lfloor>t\<rfloor>)" by simp
  then have "round_half_even (- t) = - \<lfloor>t\<rfloor>" by (simp only: round_half_even_of_int)
  moreover from True have "round_half_even t = \<lfloor>t\<rfloor>" by (metis round_half_even_of_int)
  ultimately show ?thesis by simp
next
  case False
  then have c: "\<lceil>t\<rceil> = \<lfloor>t\<rfloor> + 1" by (simp add: ceiling_altdef)
  have fl: "\<lfloor>- t\<rfloor> = - \<lfloor>t\<rfloor> - 1" by (simp add: floor_minus c)
  have d: "- t - of_int (- \<lfloor>t\<rfloor> - 1) = 1 - (t - of_int \<lfloor>t\<rfloor>)" by simp
  consider (lo) "t - of_int \<lfloor>t\<rfloor> < 1 / 2" | (hi) "1 / 2 < t - of_int \<lfloor>t\<rfloor>"
    | (eq) "t - of_int \<lfloor>t\<rfloor> = 1 / 2" by linarith
  then show ?thesis
  proof cases
    case lo
    then have "round_half_even t = \<lfloor>t\<rfloor>" by (simp add: round_half_even_def Let_def)
    moreover from lo have "round_half_even (- t) = - \<lfloor>t\<rfloor>"
      unfolding round_half_even_def Let_def fl d by simp
    ultimately show ?thesis by simp
  next
    case hi
    then have "round_half_even t = \<lfloor>t\<rfloor> + 1" by (simp add: round_half_even_def Let_def)
    moreover from hi have "round_half_even (- t) = - \<lfloor>t\<rfloor> - 1"
      unfolding round_half_even_def Let_def fl d by simp
    ultimately show ?thesis by simp
  next
    case eq
    then have "round_half_even t = (if even \<lfloor>t\<rfloor> then \<lfloor>t\<rfloor> else \<lfloor>t\<rfloor> + 1)"
      by (simp add: round_half_even_def Let_def)
    moreover from eq have "round_half_even (- t) = (if even \<lfloor>t\<rfloor> then - \<lfloor>t\<rfloor> else - \<lfloor>t\<rfloor> - 1)"
      unfolding round_half_even_def Let_def fl d by simp
    ultimately show ?thesis by simp
  qed
qed

lemma rnd_zero [simp]: "rnd 0 = 0"
  by (simp add: rnd_def)

lemma rnd_minus: "rnd (- q) = - rnd q"
  by (simp add: rnd_def Let_def round_half_even_minus)

lemma rnd_nonneg: "0 \<le> q \<Longrightarrow> 0 \<le> rnd q"
proof -
  assume q: "0 \<le> q"
  define u where "u = pow2 (max (ilog2 \<bar>q\<bar> - 52) (- 1074))"
  have "0 \<le> q / u" using q by (intro divide_nonneg_pos) (simp_all add: u_def)
  from round_half_even_mono [OF this] have "0 \<le> round_half_even (q / u)"
    by (metis of_int_0 round_half_even_of_int)
  then show ?thesis by (simp add: rnd_def Let_def u_def)
qed

lemma rnd_nonpos: "q \<le> 0 \<Longrightarrow> rnd q \<le> 0"
  using rnd_nonneg [of "- q"] by (simp add: rnd_minus)

lemma rnd_abs: "\<bar>rnd q\<bar> = rnd \<bar>q\<bar>"
proof (cases "0 \<le> q")
  case True
  with rnd_nonneg [of q] show ?thesis by simp
next
  case False
  then have "q \<le> 0" by simp
  with rnd_nonpos [of q] False show ?thesis by (simp add: rnd_minus abs_if)
qed

text \<open>A rounded value does not cross a power of two that the unit in the last place
  divides.\<close>

lemma rnd_upper:
  assumes "0 < q" "q \<le> pow2 b" "max (ilog2 q - 52) (- 1074) \<le> b"
  shows "rnd q \<le> pow2 b"
proof -
  define k where "k = max (ilog2 q - 52) (- 1074)"
  define u where "u = pow2 k"
  have u: "0 < u" by (simp add: u_def)
  have kb: "0 \<le> b - k" using assms(3) by (simp add: k_def)
  have pb: "pow2 b = of_int (2 ^ nat (b - k)) * u"
  proof -
    have "pow2 b = pow2 ((b - k) + k)" by simp
    also have "\<dots> = pow2 (b - k) * pow2 k" by (rule pow2_add)
    finally show ?thesis using kb by (simp add: pow2_nat u_def)
  qed
  have "q / u \<le> of_int (2 ^ nat (b - k))"
    using assms(2) u unfolding pb by (simp add: pos_divide_le_eq)
  from round_half_even_mono [OF this]
  have "round_half_even (q / u) \<le> 2 ^ nat (b - k)" by (simp only: round_half_even_of_int)
  then have "(of_int (round_half_even (q / u)) :: rat) \<le> of_int (2 ^ nat (b - k))"
    by (simp only: of_int_le_iff)
  then have "of_int (round_half_even (q / u)) * u \<le> of_int (2 ^ nat (b - k)) * u"
    using u by (simp add: mult_right_mono)
  moreover have "rnd q = of_int (round_half_even (q / u)) * u"
    using assms(1) by (simp add: rnd_def Let_def u_def k_def)
  ultimately show ?thesis unfolding pb by simp
qed

lemma rnd_lower:
  assumes "0 < q" "pow2 a \<le> q" "max (ilog2 q - 52) (- 1074) \<le> a"
  shows "pow2 a \<le> rnd q"
proof -
  define k where "k = max (ilog2 q - 52) (- 1074)"
  define u where "u = pow2 k"
  have u: "0 < u" by (simp add: u_def)
  have ka: "0 \<le> a - k" using assms(3) by (simp add: k_def)
  have pa: "pow2 a = of_int (2 ^ nat (a - k)) * u"
  proof -
    have "pow2 a = pow2 ((a - k) + k)" by simp
    also have "\<dots> = pow2 (a - k) * pow2 k" by (rule pow2_add)
    finally show ?thesis using ka by (simp add: pow2_nat u_def)
  qed
  have "of_int (2 ^ nat (a - k)) \<le> q / u"
    using assms(2) u unfolding pa by (simp add: pos_le_divide_eq)
  from round_half_even_mono [OF this]
  have "2 ^ nat (a - k) \<le> round_half_even (q / u)" by (simp only: round_half_even_of_int)
  then have "(of_int (2 ^ nat (a - k)) :: rat) \<le> of_int (round_half_even (q / u))"
    by (simp only: of_int_le_iff)
  then have "of_int (2 ^ nat (a - k)) * u \<le> of_int (round_half_even (q / u)) * u"
    using u by (simp add: mult_right_mono)
  moreover have "rnd q = of_int (round_half_even (q / u)) * u"
    using assms(1) by (simp add: rnd_def Let_def u_def k_def)
  ultimately show ?thesis unfolding pa by simp
qed

lemma rnd_mono_pos:
  assumes "0 < x" "x \<le> y"
  shows "rnd x \<le> rnd y"
proof -
  have y: "0 < y" using assms by simp
  from ilog2_mono [OF assms] have le: "ilog2 x \<le> ilog2 y" .
  define kx where "kx = max (ilog2 x - 52) (- 1074)"
  define ky where "ky = max (ilog2 y - 52) (- 1074)"
  have kle: "kx \<le> ky" using le by (simp add: kx_def ky_def)
  show ?thesis
  proof (cases "kx = ky")
    case True
    define u where "u = pow2 ky"
    have u: "0 < u" by (simp add: u_def)
    have "x / u \<le> y / u" using assms(2) u by (simp add: divide_right_mono)
    from round_half_even_mono [OF this]
    have "(of_int (round_half_even (x / u)) :: rat) \<le> of_int (round_half_even (y / u))"
      by simp
    then have "of_int (round_half_even (x / u)) * u \<le> of_int (round_half_even (y / u)) * u"
      using u by (simp add: mult_right_mono)
    moreover have "rnd x = of_int (round_half_even (x / u)) * u"
      using assms(1) True by (simp add: rnd_def Let_def u_def kx_def ky_def)
    moreover have "rnd y = of_int (round_half_even (y / u)) * u"
      using y by (simp add: rnd_def Let_def u_def ky_def)
    ultimately show ?thesis by simp
  next
    case False
    with kle have lt: "kx < ky" by simp
    then have ky: "ky = ilog2 y - 52" and ix: "ilog2 x + 1 \<le> ilog2 y"
      by (auto simp: kx_def ky_def max_def split: if_splits)
    have "x < pow2 (ilog2 x + 1)" using ilog2_bounds [OF assms(1)] by simp
    also have "\<dots> \<le> pow2 (ilog2 y)" using ix by (rule pow2_mono)
    finally have xb: "x \<le> pow2 (ilog2 y)" by simp
    have "rnd x \<le> pow2 (ilog2 y)"
      using assms(1) xb
    proof (rule rnd_upper)
      show "max (ilog2 x - 52) (- 1074) \<le> ilog2 y"
        using lt ky by (simp add: kx_def)
    qed
    moreover have "pow2 (ilog2 y) \<le> rnd y"
      using y
    proof (rule rnd_lower)
      show "pow2 (ilog2 y) \<le> y" using ilog2_bounds [OF y] by simp
      show "max (ilog2 y - 52) (- 1074) \<le> ilog2 y"
        using ky by (simp add: ky_def)
    qed
    ultimately show ?thesis by linarith
  qed
qed

lemma rnd_mono_nonneg:
  assumes "0 \<le> x" "x \<le> y"
  shows "rnd x \<le> rnd y"
proof (cases "x = 0")
  case True
  with assms rnd_nonneg [of y] show ?thesis by simp
next
  case False
  with assms show ?thesis by (intro rnd_mono_pos) simp_all
qed

lemma rnd_mono:
  assumes "x \<le> y"
  shows "rnd x \<le> rnd y"
proof (cases "0 \<le> x")
  case True
  then show ?thesis using assms by (rule rnd_mono_nonneg)
next
  case False
  show ?thesis
  proof (cases "0 \<le> y")
    case True
    from False have "rnd x \<le> 0" by (intro rnd_nonpos) simp
    with rnd_nonneg [OF True] show ?thesis by linarith
  next
    case False
    then have "0 \<le> - y" "- y \<le> - x" using assms by simp_all
    from rnd_mono_nonneg [OF this] show ?thesis by (simp add: rnd_minus)
  qed
qed

text \<open>A number with a significand of at most 53 bits and an exponent in range is a
  float.\<close>

lemma rnd_exact:
  assumes "\<bar>m\<bar> < 2 ^ 53" "- 1074 \<le> k"
  shows "rnd (of_int m * pow2 k) = of_int m * pow2 k"
proof (cases "m = 0")
  case True
  then show ?thesis by simp
next
  case False
  define q where "q = (of_int m :: rat) * pow2 k"
  define e where "e = ilog2 \<bar>q\<bar>"
  define j where "j = max (e - 52) (- 1074)"
  have aq: "\<bar>q\<bar> = of_int \<bar>m\<bar> * pow2 k" by (simp add: q_def abs_mult)
  have q0: "0 < \<bar>q\<bar>" using False by (simp add: q_def)
  note b = ilog2_bounds [OF q0, folded e_def]
  have "(of_int \<bar>m\<bar> :: rat) < of_int (2 ^ 53)" using assms(1) by (simp only: of_int_less_iff)
  then have "(of_int \<bar>m\<bar> :: rat) < pow2 53" by (simp add: pow2_def)
  then have "\<bar>q\<bar> < pow2 53 * pow2 k" unfolding aq by (simp add: mult_strict_right_mono)
  then have "\<bar>q\<bar> < pow2 (53 + k)" by (simp add: pow2_add)
  with b have "pow2 e < pow2 (53 + k)" by linarith
  then have "e < 53 + k" by (metis not_less pow2_mono)
  with assms(2) have jk: "0 \<le> k - j" by (simp add: j_def)
  have pk: "pow2 k = of_int (2 ^ nat (k - j)) * pow2 j"
  proof -
    have "pow2 k = pow2 ((k - j) + j)" by simp
    also have "\<dots> = pow2 (k - j) * pow2 j" by (rule pow2_add)
    finally show ?thesis using jk by (simp add: pow2_nat)
  qed
  have "q / pow2 j = of_int (m * 2 ^ nat (k - j))"
    unfolding q_def by (subst pk) simp
  then have h: "round_half_even (q / pow2 j) = m * 2 ^ nat (k - j)"
    by (simp only: round_half_even_of_int)
  have "q \<noteq> 0" using q0 by simp
  then have "rnd q = of_int (round_half_even (q / pow2 j)) * pow2 j"
    by (simp add: rnd_def e_def j_def Let_def)
  also have "\<dots> = of_int (m * 2 ^ nat (k - j)) * pow2 j" by (simp only: h)
  also have "\<dots> = of_int m * (of_int (2 ^ nat (k - j)) * pow2 j)" by simp
  also have "\<dots> = q" unfolding q_def by (simp only: pk [symmetric])
  finally show ?thesis by (simp add: q_def)
qed

lemma rnd_of_int:
  assumes "\<bar>n\<bar> < 2 ^ 53"
  shows "rnd (of_int n) = of_int n"
  using rnd_exact [OF assms, of 0] by (simp add: pow2_def)

lemma rnd_numeral [simp]:
  "numeral w < (2 ^ 53 :: int) \<Longrightarrow> rnd (numeral w) = numeral w"
  "numeral w < (2 ^ 53 :: int) \<Longrightarrow> rnd (- numeral w) = - numeral w"
  using rnd_of_int [of "numeral w"] rnd_of_int [of "- numeral w"] by simp_all

lemma rnd_one [simp]: "rnd 1 = 1"
  using rnd_of_int [of 1] by simp

lemma rnd_minus_of_int: "\<bar>n\<bar> < 2 ^ 53 \<Longrightarrow> rnd (- of_int n) = - of_int n"
  using rnd_of_int [of "- n"] by simp

lemma float_of_int_small: "\<bar>n\<bar> < 2 ^ 53 \<Longrightarrow> float_of_int n = Fin (of_int n)"
  by (simp add: float_of_int_def rnd_of_int)

text \<open>The float nearest to a number, from its exponent and a significand that is less than
  half a unit away.\<close>

lemma round_half_even_nearest:
  assumes "\<bar>t - of_int m\<bar> < 1 / 2"
  shows "round_half_even t = m"
proof -
  from round_half_even_bounds [of t] assms
  have "\<bar>(of_int (round_half_even t) :: rat) - of_int m\<bar> < 1" by linarith
  then have "\<bar>(of_int (round_half_even t - m) :: rat)\<bar> < of_int 1" by simp
  then have "\<bar>round_half_even t - m\<bar> < 1"
    by (metis of_int_abs of_int_less_iff)
  then show ?thesis by simp
qed

lemma rnd_nearest:
  assumes "pow2 e \<le> q" "q < pow2 (e + 1)" "- 1022 \<le> e"
    and "\<bar>q / pow2 (e - 52) - of_int m\<bar> < 1 / 2"
  shows "rnd q = of_int m * pow2 (e - 52)"
proof -
  have q: "0 < q" using assms(1) pow2_pos [of e] by linarith
  have e: "ilog2 q = e" using assms(1,2) by (rule ilog2_unique)
  have m: "max (e - 52) (- 1074) = e - 52" using assms(3) by simp
  show ?thesis
    using q by (simp add: rnd_def Let_def e m round_half_even_nearest [OF assms(4)])
qed

text \<open>The largest finite float, and the results that stay within the range.\<close>

lemma max_double_pos: "0 < max_double"
  by (simp add: max_double_def)

lemma rnd_max_double: "rnd max_double = max_double"
proof -
  have "rnd (of_int (2 ^ 53 - 1) * pow2 971) = of_int (2 ^ 53 - 1) * pow2 971"
    by (rule rnd_exact) simp_all
  then show ?thesis by (simp add: max_double_def pow2_def)
qed

lemma rnd_in_range: "\<bar>q\<bar> \<le> max_double \<Longrightarrow> \<bar>rnd q\<bar> \<le> max_double"
  using rnd_mono [of "\<bar>q\<bar>" max_double] by (simp add: rnd_abs rnd_max_double)

lemma rnd_abs_mono: "\<bar>x\<bar> \<le> \<bar>y\<bar> \<Longrightarrow> \<bar>rnd x\<bar> \<le> \<bar>rnd y\<bar>"
  using rnd_mono [of "\<bar>x\<bar>" "\<bar>y\<bar>"] by (simp add: rnd_abs)

lemma small_in_range: "\<bar>r\<bar> \<le> 2 ^ 53 \<Longrightarrow> \<bar>r\<bar> \<le> max_double"
proof -
  have "(2 ^ 53 :: rat) \<le> max_double" by (simp add: max_double_def)
  then show "\<bar>r\<bar> \<le> 2 ^ 53 \<Longrightarrow> \<bar>r\<bar> \<le> max_double" by linarith
qed

lemma of_rounded_Fin: "\<bar>r\<bar> \<le> max_double \<Longrightarrow> of_rounded r = Fin r"
  by (auto simp: of_rounded_def)

lemma of_rounded_eq_Fin: "of_rounded r = Fin t \<Longrightarrow> t = r \<and> \<bar>r\<bar> \<le> max_double"
  by (auto simp: of_rounded_def split: if_splits)

lemma of_rounded_zero [simp]: "of_rounded 0 = Fin 0"
  using max_double_pos by (simp add: of_rounded_def)

lemma of_rounded_of_int:
  "\<bar>n\<bar> < 2 ^ 53 \<Longrightarrow> of_rounded (of_int n) = Fin (of_int n)"
  "\<bar>n\<bar> < 2 ^ 53 \<Longrightarrow> of_rounded (- of_int n) = Fin (- of_int n)"
proof -
  assume "\<bar>n\<bar> < 2 ^ 53"
  then have "(of_int \<bar>n\<bar> :: rat) \<le> of_int (2 ^ 53)" by (simp only: of_int_le_iff)
  then have "\<bar>of_int n :: rat\<bar> \<le> 2 ^ 53" by simp
  then have "\<bar>of_int n :: rat\<bar> \<le> max_double" by (rule small_in_range)
  then show "of_rounded (of_int n) = Fin (of_int n)"
    "of_rounded (- of_int n) = Fin (- of_int n)"
    by (simp_all add: of_rounded_Fin)
qed

lemma of_rounded_numeral [simp]:
  "numeral w < (2 ^ 53 :: int) \<Longrightarrow> of_rounded (numeral w) = Fin (numeral w)"
  "numeral w < (2 ^ 53 :: int) \<Longrightarrow> of_rounded (- numeral w) = Fin (- numeral w)"
  using of_rounded_of_int [of "numeral w"] by simp_all

lemma float_of_pyint_Inr:
  "float_of_pyint i = Inr f \<Longrightarrow> f = Fin (rnd (of_int i)) \<and> \<bar>rnd (of_int i)\<bar> \<le> max_double"
  by (auto simp: float_of_pyint_def float_of_int_def split: if_splits)

lemma float_of_pyint_small: "\<bar>i\<bar> < 2 ^ 53 \<Longrightarrow> float_of_pyint i = Inr (Fin (of_int i))"
proof -
  assume a: "\<bar>i\<bar> < 2 ^ 53"
  then have "(of_int \<bar>i\<bar> :: rat) \<le> of_int (2 ^ 53)" by (simp only: of_int_le_iff)
  then have "\<bar>of_int i :: rat\<bar> \<le> 2 ^ 53" by simp
  then have "\<bar>of_int i :: rat\<bar> \<le> max_double" by (rule small_in_range)
  with a show ?thesis by (simp add: float_of_pyint_def float_of_int_def rnd_of_int)
qed

text \<open>A true division by a nonzero \<open>int\<close> does not overflow when the dividend is an
  \<open>int\<close> within the range of a float.\<close>

lemma int_truediv_in_range:
  assumes "b \<noteq> 0" "\<bar>rnd (of_int a)\<bar> \<le> max_double"
  shows "int_truediv a b = Inr (Fin (rnd (of_int a / of_int b)))"
proof -
  have "1 \<le> \<bar>b\<bar>" using assms(1) by simp
  then have "(1 :: rat) \<le> \<bar>of_int b\<bar>" by (metis of_int_1 of_int_abs of_int_le_iff)
  then have "\<bar>of_int a :: rat\<bar> / \<bar>of_int b\<bar> \<le> \<bar>of_int a\<bar> / 1"
    by (intro divide_left_mono) simp_all
  then have "\<bar>of_int a / of_int b :: rat\<bar> \<le> \<bar>of_int a\<bar>"
    by (simp add: abs_divide)
  then have "\<bar>rnd (of_int a / of_int b)\<bar> \<le> \<bar>rnd (of_int a)\<bar>" by (rule rnd_abs_mono)
  with assms(2) have "\<bar>rnd (of_int a / of_int b)\<bar> \<le> max_double" by linarith
  then show ?thesis using assms(1) by (simp add: int_truediv_def Let_def)
qed

lemma int_truediv_Inr:
  "int_truediv a b = Inr s \<Longrightarrow> s = Fin (rnd (of_int a / of_int b)) \<and> b \<noteq> 0"
  by (auto simp: int_truediv_def Let_def split: if_splits)

section \<open>Verification: Shaper/Measurer\<close>

lemma is_fin_iff: "is_fin a \<longleftrightarrow> (\<exists>q. a = Fin q)"
  by (cases a) auto

lemma is_fin_ops [simp]:
  "is_fin (float_of_int i)" "is_fin (float_lit q)"
  "is_fin a \<Longrightarrow> is_fin (fneg a)"
  by (auto simp: is_fin_iff float_of_int_def float_lit_def)

lemma is_fin_below_PInf: "is_fin a \<Longrightarrow> flt a PInf"
  by (cases a) simp_all

lemma feq_PInf [simp]: "feq a PInf \<longleftrightarrow> a = PInf"
  by (cases a) (simp_all add: feq_def)

text \<open>\<open>min\<close> leaves the sentinel \<open>inf\<close> exactly when its second argument is not below
  it: when it is \<open>inf\<close> itself or a NaN.\<close>

lemma py_min_PInf: "py_min a b = PInf \<longleftrightarrow> a = PInf \<and> \<not> flt b PInf"
  by (cases a; cases b) (auto simp: py_min_def)

lemma foldl_py_min_PInf:
  "foldl py_min a xs = PInf \<longleftrightarrow> a = PInf \<and> (\<forall>x \<in> set xs. \<not> flt x PInf)"
  by (induction xs arbitrary: a) (auto simp: py_min_PInf)

text \<open>The fields of the state after one iteration.\<close>

lemma glyph_step_fields:
  "pen_x (glyph_step scale st g) = advance_pen scale (pen_x st) g"
  "placements (glyph_step scale st g) = placements st @
     [\<lparr>gp_x = glyph_gx scale (pen_x st) g, gp_y = glyph_gy scale g,
       gp_width = bitmap_width g, gp_height = bitmap_rows g, gp_buffer = bitmap_buffer g\<rparr>]"
  "glyph_names (glyph_step scale st g) = glyph_names st @ [name_of_glyph g]"
  "min_x (glyph_step scale st g) =
     (if drawable g then py_min (min_x st) (glyph_gx scale (pen_x st) g) else min_x st)"
  "min_y (glyph_step scale st g) =
     (if drawable g then py_min (min_y st) (glyph_gy scale g) else min_y st)"
  "max_x (glyph_step scale st g) =
     (if drawable g
      then py_max (max_x st) (fadd (glyph_gx scale (pen_x st) g) (float_of_int (bitmap_width g)))
      else max_x st)"
  "max_y (glyph_step scale st g) =
     (if drawable g
      then py_max (max_y st) (fadd (glyph_gy scale g) (float_of_int (bitmap_rows g)))
      else max_y st)"
  by (simp_all add: glyph_step_def advance_pen_def drawable_def Let_def)

lemma length_placements_from [simp]: "length (placements_from scale pen gs) = length gs"
  by (induction gs arbitrary: pen) simp_all

lemma placements_from_nth:
  "i < length gs \<Longrightarrow>
   placements_from scale pen gs ! i =
     \<lparr>gp_x = glyph_gx scale (foldl (advance_pen scale) pen (take i gs)) (gs ! i),
      gp_y = glyph_gy scale (gs ! i),
      gp_width = bitmap_width (gs ! i), gp_height = bitmap_rows (gs ! i),
      gp_buffer = bitmap_buffer (gs ! i)\<rparr>"
proof (induction gs arbitrary: pen i)
  case Nil
  then show ?case by simp
next
  case (Cons g gs)
  show ?case
  proof (cases i)
    case 0
    then show ?thesis by simp
  next
    case (Suc j)
    with Cons.prems have "j < length gs" by simp
    from Cons.IH [OF this] Suc show ?thesis by simp
  qed
qed

lemma glyph_loop_pen: "pen_x (glyph_loop scale st gs) = foldl (advance_pen scale) (pen_x st) gs"
  by (induction gs arbitrary: st) (simp_all add: glyph_step_fields)

lemma glyph_loop_placements:
  "placements (glyph_loop scale st gs) = placements st @ placements_from scale (pen_x st) gs"
  by (induction gs arbitrary: st) (simp_all add: glyph_step_fields)

lemma glyph_loop_names:
  "glyph_names (glyph_loop scale st gs) = glyph_names st @ map name_of_glyph gs"
  by (induction gs arbitrary: st) (simp_all add: glyph_step_fields)

lemma drawable_placement_simp [simp]:
  "drawable_placement \<lparr>gp_x = a, gp_y = b, gp_width = bitmap_width g,
      gp_height = bitmap_rows g, gp_buffer = c\<rparr> = drawable g"
  by (simp add: drawable_placement_def drawable_def)

lemma glyph_loop_min_x:
  "min_x (glyph_loop scale st gs) =
     foldl py_min (min_x st) (map gp_x (filter drawable_placement (placements_from scale (pen_x st) gs)))"
  by (induction gs arbitrary: st) (simp_all add: glyph_step_fields)

lemma glyph_loop_min_y:
  "min_y (glyph_loop scale st gs) =
     foldl py_min (min_y st) (map gp_y (filter drawable_placement (placements_from scale (pen_x st) gs)))"
  by (induction gs arbitrary: st) (simp_all add: glyph_step_fields)

lemma glyph_loop_max_x:
  "max_x (glyph_loop scale st gs) =
     foldl py_max (max_x st)
       (map (\<lambda>p. fadd (gp_x p) (float_of_int (gp_width p)))
          (filter drawable_placement (placements_from scale (pen_x st) gs)))"
  by (induction gs arbitrary: st) (simp_all add: glyph_step_fields)

lemma glyph_loop_max_y:
  "max_y (glyph_loop scale st gs) =
     foldl py_max (max_y st)
       (map (\<lambda>p. fadd (gp_y p) (float_of_int (gp_height p)))
          (filter drawable_placement (placements_from scale (pen_x st) gs)))"
  by (induction gs arbitrary: st) (simp_all add: glyph_step_fields)

text \<open>The sentinel survives exactly when no drawable glyph is placed below \<open>inf\<close>; a
  drawable glyph is placed at \<open>inf\<close> or at a NaN only after an overflow of the float
  arithmetic.\<close>

lemma glyph_loop_min_x_PInf:
  "min_x (glyph_loop scale st gs) = PInf \<longleftrightarrow>
   min_x st = PInf \<and>
   (\<forall>p \<in> set (placements_from scale (pen_x st) gs). drawable_placement p \<longrightarrow> \<not> flt (gp_x p) PInf)"
  by (auto simp: glyph_loop_min_x foldl_py_min_PInf)

lemma drawable_placements_from:
  "(\<exists>p \<in> set (placements_from scale pen gs). drawable_placement p) \<longleftrightarrow> (\<exists>g \<in> set gs. drawable g)"
  by (induction gs arbitrary: pen) auto

lemma glyph_loop_min_x_no_overflow:
  assumes "\<forall>p \<in> set (placements_from scale (pen_x st) gs). drawable_placement p \<longrightarrow> flt (gp_x p) PInf"
  shows "min_x (glyph_loop scale st gs) = PInf \<longleftrightarrow> min_x st = PInf \<and> (\<forall>g \<in> set gs. \<not> drawable g)"
proof -
  have "(\<forall>p \<in> set (placements_from scale (pen_x st) gs). drawable_placement p \<longrightarrow> \<not> flt (gp_x p) PInf)
      \<longleftrightarrow> \<not> (\<exists>p \<in> set (placements_from scale (pen_x st) gs). drawable_placement p)"
    using assms by blast
  then show ?thesis
    unfolding glyph_loop_min_x_PInf drawable_placements_from by blast
qed

lemma initial_fields [simp]:
  "pen_x initial_state = float_lit 0" "placements initial_state = []"
  "min_x initial_state = PInf" "min_y initial_state = PInf"
  "max_x initial_state = NInf" "max_y initial_state = NInf"
  "glyph_names initial_state = []"
  by (simp_all add: initial_state_def)

lemma shape_and_measure_Some:
  assumes "shape_and_measure fnt txt feats px = Inr (Some (bbox, pls, names))"
  shows "\<exists>scale. int_truediv px (upem fnt) = Inr scale \<and>
     pls = placements_from scale (float_lit 0) (shape_run fnt txt feats px) \<and>
     names = map name_of_glyph (shape_run fnt txt feats px)"
  using assms
  by (auto simp: shape_and_measure_def Let_def glyph_loop_placements glyph_loop_names
      split: sum.splits if_splits)


lemma shape_and_measure_empty:
  "\<exists>e. shape_and_measure fnt [] feats px = Inl e"
  by (simp add: shape_and_measure_def Let_def split: sum.splits)

lemma shape_and_measure_result:
  assumes "int_truediv px (upem fnt) = Inr scale"
    and "glyphs = shape_run fnt txt feats px"
    and "txt \<noteq> []"
  shows "shape_and_measure fnt txt feats px =
     (if min_x (glyph_loop scale initial_state glyphs) = PInf then Inr None
      else Inr (Some ((min_x (glyph_loop scale initial_state glyphs),
                       min_y (glyph_loop scale initial_state glyphs),
                       max_x (glyph_loop scale initial_state glyphs),
                       max_y (glyph_loop scale initial_state glyphs)),
                      placements_from scale (float_lit 0) glyphs,
                      map name_of_glyph glyphs)))"
  using assms
  by (simp add: shape_and_measure_def Let_def glyph_loop_placements glyph_loop_names)

text \<open>
  What \<open>shape_and_measure\<close> returns for a text that is not empty, when the scale
  \<open>px_size / upem\<close> is defined and no drawable glyph is placed at \<open>inf\<close> or at a NaN by
  an overflow. It returns EMPTY exactly when no shaped glyph has a bitmap of positive
  width and positive height, which includes the empty run. Otherwise it returns one
  placement for every shaped glyph, drawable or not, in shaping order; the placement of
  glyph \<open>i\<close> is drawn at the pen advanced by all the glyphs before it, drawable or not;
  and the four bounds of the box are the minima and maxima over the drawable placements
  only.
\<close>

lemma shape_and_measure_nonempty_text:
  assumes "int_truediv px (upem fnt) = Inr scale"
    and "glyphs = shape_run fnt txt feats px"
    and "txt \<noteq> []"
    and "\<forall>p \<in> set (placements_from scale (float_lit 0) glyphs).
           drawable_placement p \<longrightarrow> flt (gp_x p) PInf"
  shows "(shape_and_measure fnt txt feats px = Inr None \<longleftrightarrow> (\<forall>g \<in> set glyphs. \<not> drawable g)) \<and>
    ((\<exists>g \<in> set glyphs. drawable g) \<longrightarrow>
      (\<exists>bbox pls names.
         shape_and_measure fnt txt feats px = Inr (Some (bbox, pls, names)) \<and>
         length pls = length glyphs \<and>
         (\<forall>i < length glyphs.
            pls ! i =
              \<lparr>gp_x = glyph_gx scale (pen_after scale (take i glyphs)) (glyphs ! i),
               gp_y = glyph_gy scale (glyphs ! i),
               gp_width = bitmap_width (glyphs ! i), gp_height = bitmap_rows (glyphs ! i),
               gp_buffer = bitmap_buffer (glyphs ! i)\<rparr>) \<and>
         bbox =
           (foldl py_min PInf (map gp_x (filter drawable_placement pls)),
            foldl py_min PInf (map gp_y (filter drawable_placement pls)),
            foldl py_max NInf
              (map (\<lambda>p. fadd (gp_x p) (float_of_int (gp_width p))) (filter drawable_placement pls)),
            foldl py_max NInf
              (map (\<lambda>p. fadd (gp_y p) (float_of_int (gp_height p))) (filter drawable_placement pls)))))"
proof -
  let ?st = "glyph_loop scale initial_state glyphs"
  have sentinel: "min_x ?st = PInf \<longleftrightarrow> (\<forall>g \<in> set glyphs. \<not> drawable g)"
    using glyph_loop_min_x_no_overflow [of scale initial_state glyphs] assms(4) by simp
  have sm: "shape_and_measure fnt txt feats px =
      (if min_x ?st = PInf then Inr None
       else Inr (Some ((min_x ?st, min_y ?st, max_x ?st, max_y ?st),
                       placements ?st, glyph_names ?st)))"
    using assms(1,2,3) by (simp add: shape_and_measure_def Let_def)
  have pls: "placements ?st = placements_from scale (float_lit 0) glyphs"
    by (simp add: glyph_loop_placements)
  have nth: "\<forall>i < length glyphs. placements ?st ! i =
      \<lparr>gp_x = glyph_gx scale (pen_after scale (take i glyphs)) (glyphs ! i),
       gp_y = glyph_gy scale (glyphs ! i),
       gp_width = bitmap_width (glyphs ! i), gp_height = bitmap_rows (glyphs ! i),
       gp_buffer = bitmap_buffer (glyphs ! i)\<rparr>"
    by (simp add: pls placements_from_nth pen_after_def)
  have box: "(min_x ?st, min_y ?st, max_x ?st, max_y ?st) =
      (foldl py_min PInf (map gp_x (filter drawable_placement (placements ?st))),
       foldl py_min PInf (map gp_y (filter drawable_placement (placements ?st))),
       foldl py_max NInf
         (map (\<lambda>p. fadd (gp_x p) (float_of_int (gp_width p)))
            (filter drawable_placement (placements ?st))),
       foldl py_max NInf
         (map (\<lambda>p. fadd (gp_y p) (float_of_int (gp_height p)))
            (filter drawable_placement (placements ?st))))"
    by (simp add: pls glyph_loop_min_x glyph_loop_min_y glyph_loop_max_x glyph_loop_max_y)
  have len: "length (placements ?st) = length glyphs" by (simp add: pls)
  have first: "shape_and_measure fnt txt feats px = Inr None
      \<longleftrightarrow> (\<forall>g \<in> set glyphs. \<not> drawable g)"
    using sentinel by (simp add: sm)
  have second: "(\<exists>g \<in> set glyphs. drawable g) \<longrightarrow>
      (\<exists>bbox pls names.
         shape_and_measure fnt txt feats px = Inr (Some (bbox, pls, names)) \<and>
         length pls = length glyphs \<and>
         (\<forall>i < length glyphs.
            pls ! i =
              \<lparr>gp_x = glyph_gx scale (pen_after scale (take i glyphs)) (glyphs ! i),
               gp_y = glyph_gy scale (glyphs ! i),
               gp_width = bitmap_width (glyphs ! i), gp_height = bitmap_rows (glyphs ! i),
               gp_buffer = bitmap_buffer (glyphs ! i)\<rparr>) \<and>
         bbox =
           (foldl py_min PInf (map gp_x (filter drawable_placement pls)),
            foldl py_min PInf (map gp_y (filter drawable_placement pls)),
            foldl py_max NInf
              (map (\<lambda>p. fadd (gp_x p) (float_of_int (gp_width p))) (filter drawable_placement pls)),
            foldl py_max NInf
              (map (\<lambda>p. fadd (gp_y p) (float_of_int (gp_height p))) (filter drawable_placement pls))))"
  proof
    assume "\<exists>g \<in> set glyphs. drawable g"
    with sentinel have "min_x ?st \<noteq> PInf" by blast
    with sm have "shape_and_measure fnt txt feats px =
        Inr (Some ((min_x ?st, min_y ?st, max_x ?st, max_y ?st), placements ?st, glyph_names ?st))"
      by simp
    with len nth box show "\<exists>bbox pls names.
         shape_and_measure fnt txt feats px = Inr (Some (bbox, pls, names)) \<and>
         length pls = length glyphs \<and>
         (\<forall>i < length glyphs.
            pls ! i =
              \<lparr>gp_x = glyph_gx scale (pen_after scale (take i glyphs)) (glyphs ! i),
               gp_y = glyph_gy scale (glyphs ! i),
               gp_width = bitmap_width (glyphs ! i), gp_height = bitmap_rows (glyphs ! i),
               gp_buffer = bitmap_buffer (glyphs ! i)\<rparr>) \<and>
         bbox =
           (foldl py_min PInf (map gp_x (filter drawable_placement pls)),
            foldl py_min PInf (map gp_y (filter drawable_placement pls)),
            foldl py_max NInf
              (map (\<lambda>p. fadd (gp_x p) (float_of_int (gp_width p))) (filter drawable_placement pls)),
            foldl py_max NInf
              (map (\<lambda>p. fadd (gp_y p) (float_of_int (gp_height p))) (filter drawable_placement pls)))"
      by blast
  qed
  from first second show ?thesis by blast
qed

text \<open>The example font at 100 pixels: the scale, the pen after a space, and the runs of a
  space followed by a letter and of a lone space.\<close>

lemma demo_scale_100:
  "int_truediv 100 (upem demo_font) = Inr (Fin (rnd (of_int 100 / of_int 1000)))"
proof -
  have "\<bar>rnd (of_int 100)\<bar> \<le> max_double" by (intro small_in_range) simp
  with int_truediv_in_range [of 1000 100] show ?thesis by (simp add: demo_font_def)
qed

lemma rnd_tenth: "rnd (1 / 10) = 3602879701896397 / 36028797018963968"
  using rnd_nearest [of "- 4" "1 / 10" 7205759403792794] by (simp add: pow2_def)

lemma demo_pen_100: "fmul (float_of_int 600) (Fin (rnd (1 / 10))) = Fin 60"
proof -
  have "rnd (600 * (3602879701896397 / 36028797018963968)) = 60"
    using rnd_nearest [of 5 "600 * (3602879701896397 / 36028797018963968)" 8444249301319680]
    by (simp add: pow2_def)
  then show ?thesis by (simp add: float_of_int_def rnd_tenth)
qed

lemma demo_space_letter_100:
  "shape_and_measure demo_font '' A'' Map.empty 100 \<noteq> Inr None \<and>
   (\<exists>r. shape_and_measure demo_font '' A'' Map.empty 100 = Inr (Some r)) \<and>
   shape_and_measure demo_font '' '' Map.empty 100 = Inr None"
proof -
  let ?s = "Fin (rnd (1 / 10))"
  have sc: "int_truediv 100 (upem demo_font) = Inr ?s"
    using demo_scale_100 by simp
  have r1: "map (demo_glyph 100) '' A'' = shape_run demo_font '' A'' Map.empty 100"
    and r2: "map (demo_glyph 100) '' '' = shape_run demo_font '' '' Map.empty 100"
    by (simp_all add: demo_font_def)
  have d: "drawable (demo_glyph 100 CHR ''A'')" "\<not> drawable (demo_glyph 100 CHR '' '')"
    by (simp_all add: drawable_def demo_glyph_def)
  have pen: "advance_pen ?s (float_lit 0) (demo_glyph 100 CHR '' '') = Fin 60"
    by (simp add: advance_pen_def demo_glyph_def demo_pen_100 float_lit_def)
  have gx: "glyph_gx ?s (Fin 60) (demo_glyph 100 CHR ''A'') = Fin 60"
    by (simp add: glyph_gx_def demo_glyph_def float_of_int_def)
  have m1: "min_x (glyph_loop ?s initial_state (map (demo_glyph 100) '' A'')) = Fin 60"
    using d by (simp add: glyph_step_fields pen gx py_min_def)
  have m2: "min_x (glyph_loop ?s initial_state (map (demo_glyph 100) '' '')) = PInf"
    using d by (simp add: glyph_step_fields)
  have t: "'' A'' \<noteq> []" "'' '' \<noteq> []" by simp_all
  show ?thesis
    unfolding shape_and_measure_result [OF sc r1 t(1)]
      shape_and_measure_result [OF sc r2 t(2)]
    using m1 m2 by simp
qed

text \<open>
  Claim C5 counts the empty glyph sequence among the runs for which \<open>shape_and_measure\<close>
  returns EMPTY. For the empty text it does not: the binding of the shaping engine gives no
  list of positions, and the loop of line 81 raises before the test of line 117 is
  reached. Whatever the font, the features and the pixel size, \<open>shape_and_measure\<close> on
  the empty text raises; with the example font, whose run for the empty text is the empty
  run, the exception is the \<open>TypeError\<close> of line 81, and the result is not EMPTY.
\<close>

theorem shape_and_measure_empty_text:
  "(\<exists>e. shape_and_measure fnt '''' feats px = Inl e) \<and>
   shape_run demo_font '''' Map.empty 100 = [] \<and>
   shape_and_measure demo_font '''' Map.empty 100 = Inl PositionsNotIterable \<and>
   shape_and_measure demo_font '''' Map.empty 100 \<noteq> Inr None"
proof -
  have "shape_and_measure demo_font '''' Map.empty 100 = Inl PositionsNotIterable"
    by (simp add: shape_and_measure_def Let_def demo_scale_100)
  moreover have "shape_run demo_font '''' Map.empty 100 = []" by (simp add: demo_font_def)
  ultimately show ?thesis using shape_and_measure_empty [of fnt feats px] by simp
qed

text \<open>
  Claim C7. For every glyph of a run that \<open>shape_and_measure\<close> returns, the placement
  has \<open>x = pen_x + x_offset * scale + bitmap_left\<close> and
  \<open>y = - (y_offset * scale) - bitmap_top\<close>, where \<open>scale = px_size / upem\<close> and
  \<open>pen_x\<close> is the pen after the glyphs before it; every operation is a float operation.
\<close>

theorem draw_position_formula:
  assumes "shape_and_measure fnt txt feats px = Inr (Some (bbox, pls, names))"
    and "glyphs = shape_run fnt txt feats px"
    and "i < length glyphs"
  shows "\<exists>scale. int_truediv px (upem fnt) = Inr scale \<and>
     scale = Fin (rnd (of_int px / of_int (upem fnt))) \<and>
     gp_x (pls ! i) =
       fadd (fadd (pen_after scale (take i glyphs))
                  (fmul (float_of_int (x_offset (glyphs ! i))) scale))
            (float_of_int (bitmap_left (glyphs ! i))) \<and>
     gp_y (pls ! i) =
       fsub (fneg (fmul (float_of_int (y_offset (glyphs ! i))) scale))
            (float_of_int (bitmap_top (glyphs ! i)))"
proof -
  from shape_and_measure_Some [OF assms(1)] obtain scale where
    sc: "int_truediv px (upem fnt) = Inr scale"
    and pls: "pls = placements_from scale (float_lit 0) glyphs"
    using assms(2) by auto
  from sc have "scale = Fin (rnd (of_int px / of_int (upem fnt)))"
    by (simp add: int_truediv_Inr)
  moreover from pls assms(3) have "pls ! i =
      \<lparr>gp_x = glyph_gx scale (pen_after scale (take i glyphs)) (glyphs ! i),
       gp_y = glyph_gy scale (glyphs ! i),
       gp_width = bitmap_width (glyphs ! i), gp_height = bitmap_rows (glyphs ! i),
       gp_buffer = bitmap_buffer (glyphs ! i)\<rparr>"
    by (simp add: placements_from_nth pen_after_def)
  ultimately show ?thesis using sc by (simp add: glyph_gx_def glyph_gy_def)
qed

text \<open>Witness for C7: the letter after a space, at 100 pixels.\<close>

theorem draw_position_formula_witness:
  "\<exists>bbox pls names scale.
     shape_and_measure demo_font '' A'' Map.empty 100 = Inr (Some (bbox, pls, names)) \<and>
     scale = Fin (rnd (of_int 100 / of_int 1000)) \<and>
     gp_x (pls ! 1) =
       fadd (fadd (pen_after scale [demo_glyph 100 CHR '' ''])
                  (fmul (float_of_int 0) scale)) (float_of_int 0) \<and>
     gp_y (pls ! 1) = fsub (fneg (fmul (float_of_int 0) scale)) (float_of_int 100)"
proof -
  have run: "[demo_glyph 100 CHR '' '', demo_glyph 100 CHR ''A'']
      = shape_run demo_font '' A'' Map.empty 100"
    by (simp add: demo_font_def)
  from demo_space_letter_100 obtain bbox pls names where
    sm: "shape_and_measure demo_font '' A'' Map.empty 100 = Inr (Some (bbox, pls, names))"
    by auto
  have len: "1 < length [demo_glyph 100 CHR '' '', demo_glyph 100 CHR ''A'']" by simp
  from draw_position_formula [OF sm run len] obtain scale where
    s1: "scale = Fin (rnd (of_int 100 / of_int (upem demo_font)))"
    and x: "gp_x (pls ! 1) =
       fadd (fadd (pen_after scale (take 1 [demo_glyph 100 CHR '' '', demo_glyph 100 CHR ''A'']))
                  (fmul (float_of_int
                     (x_offset ([demo_glyph 100 CHR '' '', demo_glyph 100 CHR ''A''] ! 1))) scale))
            (float_of_int (bitmap_left ([demo_glyph 100 CHR '' '', demo_glyph 100 CHR ''A''] ! 1)))"
    and y: "gp_y (pls ! 1) =
       fsub (fneg (fmul (float_of_int
                     (y_offset ([demo_glyph 100 CHR '' '', demo_glyph 100 CHR ''A''] ! 1))) scale))
            (float_of_int (bitmap_top ([demo_glyph 100 CHR '' '', demo_glyph 100 CHR ''A''] ! 1)))"
    by blast
  have s2: "scale = Fin (rnd (of_int 100 / of_int 1000))"
    using s1 by (simp add: demo_font_def)
  have x2: "gp_x (pls ! 1) =
       fadd (fadd (pen_after scale [demo_glyph 100 CHR '' ''])
                  (fmul (float_of_int 0) scale)) (float_of_int 0)"
    using x by (simp add: demo_glyph_def)
  have y2: "gp_y (pls ! 1) = fsub (fneg (fmul (float_of_int 0) scale)) (float_of_int 100)"
    using y by (simp add: demo_glyph_def)
  from sm s2 x2 y2 show ?thesis by blast
qed

lemma glyph_step_y_advance_update:
  "glyph_step scale st (g\<lparr>y_advance := v\<rparr>) = glyph_step scale st g"
  by (simp add: glyph_step_def glyph_gx_def glyph_gy_def name_of_glyph_def Let_def
      split: option.split)

lemma glyph_step_y_advance:
  assumes "same_but_y_advance g h"
  shows "glyph_step scale st h = glyph_step scale st g"
proof -
  from assms have h: "h = g\<lparr>y_advance := y_advance h\<rparr>"
    by (simp add: same_but_y_advance_def)
  show ?thesis
    by (subst h) (rule glyph_step_y_advance_update)
qed

lemma glyph_loop_y_advance:
  "list_all2 same_but_y_advance gs hs \<Longrightarrow> glyph_loop scale st hs = glyph_loop scale st gs"
proof (induction gs hs arbitrary: st rule: list_all2_induct)
  case Nil
  then show ?case by simp
next
  case (Cons g gs h hs)
  then show ?case by (simp add: glyph_step_y_advance)
qed

text \<open>
  Claim C9. \<open>shape_and_measure\<close> never reads \<open>y_advance\<close>: two fonts with the same
  \<open>upem\<close> whose runs differ at most in the \<open>y_advance\<close> of their glyphs give the same
  result. The vertical position of a placement is decided by the \<open>y_offset\<close> and the
  \<open>bitmap_top\<close> of its own glyph (and the scale): whatever the other glyphs of two runs
  are, and whatever the advances, the placements at an index where the two runs agree on
  these two fields have the same \<open>y\<close>.
\<close>

theorem y_advance_ignored:
  "(upem f2 = upem f1 \<and>
    list_all2 same_but_y_advance (shape_run f1 txt feats px) (shape_run f2 txt feats px)
      \<longrightarrow> shape_and_measure f2 txt feats px = shape_and_measure f1 txt feats px) \<and>
   (i < length gs \<and> i < length hs \<and>
    y_offset (gs ! i) = y_offset (hs ! i) \<and> bitmap_top (gs ! i) = bitmap_top (hs ! i)
      \<longrightarrow> gp_y (placements (glyph_loop scale initial_state gs) ! i) =
          gp_y (placements (glyph_loop scale initial_state hs) ! i))"
proof
  show "upem f2 = upem f1 \<and>
    list_all2 same_but_y_advance (shape_run f1 txt feats px) (shape_run f2 txt feats px)
      \<longrightarrow> shape_and_measure f2 txt feats px = shape_and_measure f1 txt feats px"
  proof
    assume a: "upem f2 = upem f1 \<and>
      list_all2 same_but_y_advance (shape_run f1 txt feats px) (shape_run f2 txt feats px)"
    then have loop: "\<And>scale. glyph_loop scale initial_state (shape_run f2 txt feats px) =
        glyph_loop scale initial_state (shape_run f1 txt feats px)"
      by (simp add: glyph_loop_y_advance)
    show "shape_and_measure f2 txt feats px = shape_and_measure f1 txt feats px"
      unfolding shape_and_measure_def Let_def loop using a by simp
  qed
  show "i < length gs \<and> i < length hs \<and>
    y_offset (gs ! i) = y_offset (hs ! i) \<and> bitmap_top (gs ! i) = bitmap_top (hs ! i)
      \<longrightarrow> gp_y (placements (glyph_loop scale initial_state gs) ! i) =
          gp_y (placements (glyph_loop scale initial_state hs) ! i)"
    by (simp add: glyph_loop_placements placements_from_nth glyph_gy_def)
qed

text \<open>Witness for C9: the example font, and the same font with every \<open>y_advance\<close> set
  to 7, on a run whose second glyph is preceded by a different glyph.\<close>

theorem y_advance_ignored_witness:
  "shape_and_measure
     (demo_font\<lparr>shape_run := \<lambda>txt feats px. map (\<lambda>c. (demo_glyph px c)\<lparr>y_advance := 7\<rparr>) txt\<rparr>)
     ''A'' Map.empty 100
   = shape_and_measure demo_font ''A'' Map.empty 100 \<and>
   gp_y (placements (glyph_loop (Fin 1) initial_state (map (demo_glyph 100) ''AB'')) ! 1) =
   gp_y (placements (glyph_loop (Fin 1) initial_state (map (demo_glyph 100) '' B'')) ! 1)"
proof -
  have a: "upem (demo_font\<lparr>shape_run :=
        \<lambda>txt feats px. map (\<lambda>c. (demo_glyph px c)\<lparr>y_advance := 7\<rparr>) txt\<rparr>) = upem demo_font"
    by simp
  have b: "list_all2 same_but_y_advance (shape_run demo_font ''A'' Map.empty 100)
      (shape_run (demo_font\<lparr>shape_run :=
        \<lambda>txt feats px. map (\<lambda>c. (demo_glyph px c)\<lparr>y_advance := 7\<rparr>) txt\<rparr>) ''A'' Map.empty 100)"
    by (simp add: demo_font_def same_but_y_advance_def)
  have c: "(1::nat) < length (map (demo_glyph 100) ''AB'') \<and>
      1 < length (map (demo_glyph 100) '' B'') \<and>
      y_offset (map (demo_glyph 100) ''AB'' ! 1) = y_offset (map (demo_glyph 100) '' B'' ! 1) \<and>
      bitmap_top (map (demo_glyph 100) ''AB'' ! 1) = bitmap_top (map (demo_glyph 100) '' B'' ! 1)"
    by (simp add: demo_glyph_def)
  from a b c show ?thesis
    using y_advance_ignored [of
        "demo_font\<lparr>shape_run := \<lambda>txt feats px. map (\<lambda>c. (demo_glyph px c)\<lparr>y_advance := 7\<rparr>) txt\<rparr>"
        demo_font "''A''" Map.empty 100 1 "map (demo_glyph 100) ''AB''"
        "map (demo_glyph 100) '' B''" "Fin 1"]
    by blast
qed

section \<open>Verification: Mask Builder\<close>

lemma fadd_eq_Fin:
  "fadd x y = Fin t \<Longrightarrow> \<exists>a b. x = Fin a \<and> y = Fin b \<and> t = rnd (a + b)"
  by (cases x; cases y) (auto dest: of_rounded_eq_Fin)

lemma fsub_eq_Fin:
  "fsub x y = Fin t \<Longrightarrow> \<exists>a b. x = Fin a \<and> y = Fin b \<and> t = rnd (a - b)"
  by (cases x; cases y) (auto simp: fsub_def dest: of_rounded_eq_Fin)

lemma py_round_Inr: "py_round x = Inr n \<Longrightarrow> \<exists>t. x = Fin t \<and> n = round_half_even t"
  by (cases x) auto

lemma py_round_fsub:
  "py_round (fsub x y) = Inr n \<Longrightarrow>
   \<exists>a b. x = Fin a \<and> y = Fin b \<and> n = round_half_even (rnd (a - b))"
  by (blast dest: py_round_Inr fsub_eq_Fin)

text \<open>
  Claim C8. Whenever \<open>make_text_mask\<close> returns, the four bounds of the box are finite and
  the mask has the width \<open>max(1, round(max_x - min_x))\<close> and the height
  \<open>max(1, round(max_y - min_y))\<close>, with the float subtraction and the rounding to even
  of Python; both are at least 1. (It does not return when a difference is not finite,
  or when the image library refuses the mask or a glyph image.)
\<close>

theorem make_text_mask_dimensions:
  assumes "make_text_mask lib (mnx, mny, mxx, mxy) pls = Inr (msk, (w, h))"
  shows "\<exists>a b c d.
     mnx = Fin a \<and> mny = Fin b \<and> mxx = Fin c \<and> mxy = Fin d \<and>
     w = max 1 (round_half_even (rnd (c - a))) \<and>
     h = max 1 (round_half_even (rnd (d - b))) \<and>
     mask_width msk = w \<and> mask_height msk = h \<and> 1 \<le> w \<and> 1 \<le> h"
proof -
  from assms obtain rw rh ps where
    rw: "py_round (fsub mxx mnx) = Inr rw" and rh: "py_round (fsub mxy mny) = Inr rh"
    and m: "msk = \<lparr>mask_width = max 1 rw, mask_height = max 1 rh, mask_pastes = ps\<rparr>"
    and w: "w = max 1 rw" and h: "h = max 1 rh"
    by (auto simp: make_text_mask_def Let_def split: sum.splits if_splits)
  from py_round_fsub [OF rw] obtain c a where
    x: "mxx = Fin c" "mnx = Fin a" "rw = round_half_even (rnd (c - a))" by blast
  from py_round_fsub [OF rh] obtain d b where
    y: "mxy = Fin d" "mny = Fin b" "rh = round_half_even (rnd (d - b))" by blast
  from x y m w h show ?thesis by simp
qed

lemma round_half_even_numeral [simp]:
  "round_half_even 0 = 0" "round_half_even (numeral w) = numeral w"
  using round_half_even_of_int [of 0] round_half_even_of_int [of "numeral w"] by simp_all

text \<open>Witness for C8: a box of width and height 0 gives a mask of 1 by 1; a box of 358 by
  716 with one glyph image of that size gives a mask of 358 by 716.\<close>

theorem make_text_mask_dimensions_witness:
  "make_text_mask demo_library (Fin 5, Fin 7, Fin 5, Fin 7)
       [\<lparr>gp_x = Fin 5, gp_y = Fin 7, gp_width = 0, gp_height = 0, gp_buffer = []\<rparr>]
     = Inr (\<lparr>mask_width = 1, mask_height = 1, mask_pastes = []\<rparr>, (1, 1)) \<and>
   (\<exists>a c. Fin 5 = Fin a \<and> Fin 5 = Fin c \<and> (1 :: int) = max 1 (round_half_even (rnd (c - a)))) \<and>
   (\<exists>msk. make_text_mask demo_library (Fin 0, Fin (- 716), Fin 358, Fin 0)
       [\<lparr>gp_x = Fin 0, gp_y = Fin (- 716), gp_width = 358, gp_height = 716,
         gp_buffer = replicate (nat (358 * 716)) 255\<rparr>]
     = Inr (msk, (358, 716)))"
proof -
  have r: "make_text_mask demo_library (Fin 5, Fin 7, Fin 5, Fin 7)
       [\<lparr>gp_x = Fin 5, gp_y = Fin 7, gp_width = 0, gp_height = 0, gp_buffer = []\<rparr>]
     = Inr (\<lparr>mask_width = 1, mask_height = 1, mask_pastes = []\<rparr>, (1, 1))"
    by (simp add: make_text_mask_def fsub_def Let_def)
  have s: "\<exists>msk. make_text_mask demo_library (Fin 0, Fin (- 716), Fin 358, Fin 0)
       [\<lparr>gp_x = Fin 0, gp_y = Fin (- 716), gp_width = 358, gp_height = 716,
         gp_buffer = replicate (nat (358 * 716)) 255\<rparr>]
     = Inr (msk, (358, 716))"
    by (simp add: make_text_mask_def fsub_def Let_def)
  from make_text_mask_dimensions [OF r] r s show ?thesis by auto
qed

section \<open>Verification: candidate sizes\<close>

declare py_range.simps [simp del]

lemma py_range_down:
  "0 < st \<Longrightarrow> py_range a b (- st) = (if b < a then a # py_range (a - st) b (- st) else [])"
  by (subst py_range.simps) simp

lemma py_range_down_set:
  "0 < st \<Longrightarrow> x \<in> set (py_range a b (- st)) \<longleftrightarrow> b < x \<and> x \<le> a \<and> st dvd (a - x)"
proof (induction a b "- st" arbitrary: x rule: py_range.induct)
  case (1 start stop)
  show ?case
  proof (cases "stop < start")
    case False
    with 1(2) show ?thesis by (simp add: py_range_down)
  next
    case True
    with 1(2) have ih: "\<And>y. y \<in> set (py_range (start - st) stop (- st))
        \<longleftrightarrow> stop < y \<and> y \<le> start - st \<and> st dvd (start - st - y)"
      using 1(1) by simp
    have d: "st dvd (start - st - x) \<longleftrightarrow> st dvd (start - x)"
      by (metis diff_diff_eq2 diff_add_cancel dvd_diff_commute dvd_add_triv_left_iff add.commute
          diff_diff_eq)
    have "x \<in> set (py_range start stop (- st)) \<longleftrightarrow>
        x = start \<or> (stop < x \<and> x \<le> start - st \<and> st dvd (start - x))"
      using True 1(2) by (simp add: py_range_down [of st start] ih d)
    also have "\<dots> \<longleftrightarrow> stop < x \<and> x \<le> start \<and> st dvd (start - x)"
    proof -
      have "st dvd (start - x) \<Longrightarrow> x \<le> start \<Longrightarrow> x \<noteq> start \<Longrightarrow> x \<le> start - st"
      proof -
        assume a: "st dvd (start - x)" "x \<le> start" "x \<noteq> start"
        then have "0 < start - x" by simp
        with a(1) 1(2) have "st \<le> start - x" by (simp add: zdvd_imp_le)
        then show ?thesis by simp
      qed
      with True 1(2) show ?thesis by auto
    qed
    finally show ?thesis .
  qed
qed


lemma py_range_down_nth:
  "0 < st \<Longrightarrow> i < length (py_range a b (- st)) \<Longrightarrow> py_range a b (- st) ! i = a - int i * st"
proof (induction a b "- st" arbitrary: i rule: py_range.induct)
  case (1 start stop)
  show ?case
  proof (cases "stop < start")
    case False
    with 1(2,3) show ?thesis by (simp add: py_range_down)
  next
    case True
    show ?thesis
    proof (cases i)
      case 0
      with True 1(2) show ?thesis by (simp add: py_range_down [of st start])
    next
      case (Suc j)
      with True 1(2,3) have "j < length (py_range (start - st) stop (- st))"
        by (simp add: py_range_down [of st start])
      with 1(1) True 1(2) have "py_range (start - st) stop (- st) ! j = start - st - int j * st"
        by simp
      with True 1(2) Suc show ?thesis
        by (simp add: py_range_down [of st start] algebra_simps)
    qed
  qed
qed

lemma py_range_down_length:
  "0 < st \<Longrightarrow> length (py_range a b (- st)) = nat ((a - b + st - 1) div st)"
proof (induction a b "- st" rule: py_range.induct)
  case (1 start stop)
  show ?case
  proof (cases "stop < start")
    case False
    have "(st - 1) div st = 0" using 1(2) by (simp add: div_pos_pos_trivial)
    moreover from False have "start - stop + st - 1 \<le> st - 1" by simp
    ultimately have "(start - stop + st - 1) div st \<le> 0"
      using 1(2) zdiv_mono1 [of "start - stop + st - 1" "st - 1" st] by simp
    with False 1(2) show ?thesis by (simp add: py_range_down)
  next
    case True
    with 1 have ih: "length (py_range (start - st) stop (- st))
        = nat ((start - st - stop + st - 1) div st)" by simp
    have "(start - stop + st - 1) div st = (start - st - stop + st - 1) div st + 1"
    proof -
      have "start - stop + st - 1 = (start - st - stop + st - 1) + st" by simp
      then show ?thesis using 1(2) by (metis div_add_self2 less_irrefl)
    qed
    moreover have "0 \<le> (start - st - stop + st - 1) div st"
      using True 1(2) by (simp add: pos_imp_zdiv_nonneg_iff)
    ultimately show ?thesis
      using True 1(2) by (simp add: py_range_down [of st start] ih nat_add_distrib)
  qed
qed

lemma step_px_ge:
  "step_px sz = Inr st \<Longrightarrow> 2 \<le> st"
  by (auto simp: step_px_def split: sum.splits)

lemma candidate_sizes_Inr:
  "candidate_sizes sz = Inr cands \<Longrightarrow>
   \<exists>mx mn st. max_px sz = Inr mx \<and> min_px sz = Inr mn \<and> step_px sz = Inr st \<and> 2 \<le> st \<and>
      cands = py_range mx (mn - 1) (- st)"
  by (auto simp: candidate_sizes_def step_px_ge split: sum.splits)


lemma py_trunc_mono:
  "a \<le> b \<Longrightarrow> (if 0 \<le> a then \<lfloor>a\<rfloor> else \<lceil>a\<rceil>) \<le> (if 0 \<le> b then \<lfloor>b\<rfloor> else \<lceil>b\<rceil>)"
  for a b :: rat
proof -
  assume ab: "a \<le> b"
  have "\<lfloor>a\<rfloor> \<le> \<lfloor>b\<rfloor>" "\<lceil>a\<rceil> \<le> \<lceil>b\<rceil>" using ab by (simp_all add: floor_mono ceiling_mono)
  moreover have "a < 0 \<Longrightarrow> 0 \<le> b \<Longrightarrow> \<lceil>a\<rceil> \<le> \<lfloor>b\<rfloor>"
  proof -
    assume "a < 0" "0 \<le> b"
    then have "\<lceil>a\<rceil> \<le> 0" "0 \<le> \<lfloor>b\<rfloor>" by (simp_all add: ceiling_le_zero)
    then show ?thesis by linarith
  qed
  ultimately show ?thesis using ab by auto
qed

text \<open>The products \<open>size * 0.70\<close> and \<open>size * 0.08\<close> and the quotient \<open>size / 170\<close> do
  not overflow when the size converts to a float.\<close>

lemma lit_unit:
  assumes "0 \<le> q" "q \<le> 1"
  shows "0 \<le> rnd q \<and> rnd q \<le> 1"
  using rnd_nonneg [OF assms(1)] rnd_mono [OF assms(2)] by simp

lemma fmul_eq_Fin: "fmul x y = Fin t \<Longrightarrow> \<bar>t\<bar> \<le> max_double"
  by (cases x; cases y)
     (auto dest: of_rounded_eq_Fin split: option.splits if_splits)

lemma fmul_lit_in_range:
  assumes "\<bar>F\<bar> \<le> max_double" "0 \<le> q" "q \<le> 1"
  shows "fmul (Fin F) (float_lit q) = Fin (rnd (F * rnd q))"
proof -
  from lit_unit [OF assms(2,3)] have c: "0 \<le> rnd q" "rnd q \<le> 1" by simp_all
  have "\<bar>F * rnd q\<bar> = \<bar>F\<bar> * rnd q" using c by (simp add: abs_mult)
  also have "\<dots> \<le> \<bar>F\<bar> * 1" using c by (intro mult_left_mono) simp_all
  finally have "\<bar>F * rnd q\<bar> \<le> max_double" using assms(1) by simp
  then have "\<bar>rnd (F * rnd q)\<bar> \<le> max_double" by (rule rnd_in_range)
  then show ?thesis by (simp add: float_lit_def of_rounded_Fin)
qed

lemma max_px_value:
  assumes "float_of_pyint sz = Inr f"
  shows "max_px sz = Inr (max 220 (let t = rnd (rnd (of_int sz) * rnd (70 / 100))
                                   in if 0 \<le> t then \<lfloor>t\<rfloor> else \<lceil>t\<rceil>))"
proof -
  from float_of_pyint_Inr [OF assms]
  have f: "f = Fin (rnd (of_int sz))" and r: "\<bar>rnd (of_int sz)\<bar> \<le> max_double" by simp_all
  have "fmul f (float_lit (70 / 100)) = Fin (rnd (rnd (of_int sz) * rnd (70 / 100)))"
    unfolding f by (rule fmul_lit_in_range [OF r]) simp_all
  then show ?thesis by (simp add: max_px_def assms Let_def)
qed

lemma min_px_value:
  assumes "float_of_pyint sz = Inr f"
  shows "min_px sz = Inr (max 64 (let t = rnd (rnd (of_int sz) * rnd (8 / 100))
                                  in if 0 \<le> t then \<lfloor>t\<rfloor> else \<lceil>t\<rceil>))"
proof -
  from float_of_pyint_Inr [OF assms]
  have f: "f = Fin (rnd (of_int sz))" and r: "\<bar>rnd (of_int sz)\<bar> \<le> max_double" by simp_all
  have "fmul f (float_lit (8 / 100)) = Fin (rnd (rnd (of_int sz) * rnd (8 / 100)))"
    unfolding f by (rule fmul_lit_in_range [OF r]) simp_all
  then show ?thesis by (simp add: min_px_def assms Let_def)
qed

lemma step_px_value:
  assumes "float_of_pyint sz = Inr f"
  shows "step_px sz = Inr (max 2 (let t = rnd (of_int sz / of_int 170)
                                  in if 0 \<le> t then \<lfloor>t\<rfloor> else \<lceil>t\<rceil>))"
proof -
  from float_of_pyint_Inr [OF assms] have "\<bar>rnd (of_int sz)\<bar> \<le> max_double" by simp
  then have "int_truediv sz 170 = Inr (Fin (rnd (of_int sz / of_int 170)))"
    by (intro int_truediv_in_range) simp_all
  then show ?thesis by (simp add: step_px_def Let_def)
qed

lemma max_px_Inr: "max_px sz = Inr mx \<Longrightarrow> \<exists>f. float_of_pyint sz = Inr f"
  by (auto simp: max_px_def split: sum.splits)

lemma candidate_sizes_overflow:
  "float_of_pyint sz = Inl e \<Longrightarrow> candidate_sizes sz = Inl e"
  by (simp add: candidate_sizes_def max_px_def)

text \<open>A candidate is positive and within the range of a float, so that the scale
  \<open>px_size / upem\<close> of a candidate is defined unless \<open>upem\<close> is 0.\<close>

lemma max_px_in_range:
  assumes "max_px sz = Inr mx"
  shows "(of_int mx :: rat) \<le> max_double"
proof -
  from assms obtain f x v where
    x: "fmul f (float_lit (70 / 100)) = x" and v: "py_trunc x = Inr v" and mx: "mx = max 220 v"
    by (auto simp: max_px_def split: sum.splits)
  from v obtain t where t: "x = Fin t" and vt: "v = (if 0 \<le> t then \<lfloor>t\<rfloor> else \<lceil>t\<rceil>)"
    by (cases x) auto
  from x t have b: "\<bar>t\<bar> \<le> max_double" by (auto dest: fmul_eq_Fin)
  have "(of_int v :: rat) \<le> max_double"
  proof (cases "0 \<le> t")
    case True
    then have "(of_int v :: rat) \<le> t" by (simp add: vt)
    with b show ?thesis by linarith
  next
    case False
    then have "\<lceil>t\<rceil> \<le> 0" by (simp add: ceiling_le_zero)
    then have "(of_int v :: rat) \<le> 0" using False by (simp add: vt)
    with max_double_pos show ?thesis by linarith
  qed
  moreover have "(220 :: rat) \<le> max_double" by (simp add: max_double_def)
  ultimately show ?thesis unfolding mx by (simp add: max_def)
qed

lemma candidate_in_range:
  assumes "candidate_sizes sz = Inr cands" "p \<in> set cands"
  shows "64 \<le> p \<and> \<bar>rnd (of_int p)\<bar> \<le> max_double"
proof -
  from candidate_sizes_Inr [OF assms(1)] obtain mx mn st where
    h: "max_px sz = Inr mx" "min_px sz = Inr mn" "2 \<le> st" "cands = py_range mx (mn - 1) (- st)"
    by blast
  from h(2) have mn: "64 \<le> mn" by (auto simp: min_px_def split: sum.splits)
  from h(3) have st: "0 < st" by simp
  from assms(2) h(4) have p: "mn \<le> p" "p \<le> mx"
    by (auto simp: py_range_down_set [OF st])
  have "(of_int p :: rat) \<le> of_int mx" using p(2) by (simp only: of_int_le_iff)
  with max_px_in_range [OF h(1)] have "(of_int p :: rat) \<le> max_double" by linarith
  moreover have "(0 :: rat) \<le> of_int p" using p(1) mn by simp
  ultimately have "\<bar>of_int p :: rat\<bar> \<le> max_double" by simp
  then have "\<bar>rnd (of_int p)\<bar> \<le> max_double" by (rule rnd_in_range)
  with p(1) mn show ?thesis by simp
qed

lemma min_px_le_max_px:
  assumes "max_px sz = Inr mx" "min_px sz = Inr mn"
  shows "mn \<le> mx"
proof -
  from max_px_Inr [OF assms(1)] obtain f where cv: "float_of_pyint sz = Inr f" by blast
  define F where "F = rnd (of_int sz :: rat)"
  define c08 where "c08 = rnd (8 / 100)"
  define c70 where "c70 = rnd (70 / 100)"
  define t08 where "t08 = rnd (F * c08)"
  define t70 where "t70 = rnd (F * c70)"
  have "max_px sz = Inr (max 220 (if 0 \<le> t70 then \<lfloor>t70\<rfloor> else \<lceil>t70\<rceil>))"
    unfolding t70_def F_def c70_def
    using max_px_value [OF cv] by (simp add: Let_def)
  with assms(1) have "Inr mx = (Inr (max 220 (if 0 \<le> t70 then \<lfloor>t70\<rfloor> else \<lceil>t70\<rceil>)) :: error + int)"
    by (simp only:)
  then have mx: "mx = max 220 (if 0 \<le> t70 then \<lfloor>t70\<rfloor> else \<lceil>t70\<rceil>)"
    by (simp only: sum.inject)
  have "min_px sz = Inr (max 64 (if 0 \<le> t08 then \<lfloor>t08\<rfloor> else \<lceil>t08\<rceil>))"
    unfolding t08_def F_def c08_def
    using min_px_value [OF cv] by (simp add: Let_def)
  with assms(2) have "Inr mn = (Inr (max 64 (if 0 \<le> t08 then \<lfloor>t08\<rfloor> else \<lceil>t08\<rceil>)) :: error + int)"
    by (simp only:)
  then have mn: "mn = max 64 (if 0 \<le> t08 then \<lfloor>t08\<rfloor> else \<lceil>t08\<rceil>)"
    by (simp only: sum.inject)
  have c0: "0 \<le> c08" unfolding c08_def by (rule rnd_nonneg) simp
  have c1: "c08 \<le> c70" unfolding c08_def c70_def by (rule rnd_mono_nonneg) simp_all
  show ?thesis
  proof (cases "0 \<le> sz")
    case True
    then have F: "0 \<le> F" unfolding F_def by (intro rnd_nonneg) simp
    have "0 \<le> F * c08" using F c0 by simp
    moreover have "F * c08 \<le> F * c70" using F c1 by (rule mult_left_mono [rotated])
    ultimately have "t08 \<le> t70" unfolding t08_def t70_def by (rule rnd_mono_nonneg)
    from py_trunc_mono [OF this] show ?thesis unfolding mx mn by linarith
  next
    case False
    then have "F \<le> 0" unfolding F_def by (intro rnd_nonpos) simp
    with c0 have "F * c08 \<le> 0" by (simp add: mult_nonpos_nonneg)
    then have t: "t08 \<le> 0" unfolding t08_def by (rule rnd_nonpos)
    have "(if 0 \<le> t08 then \<lfloor>t08\<rfloor> else \<lceil>t08\<rceil>) \<le> 0"
      using t by (auto simp: ceiling_le_zero intro: order_trans [OF floor_mono [OF t]])
    then show ?thesis unfolding mx mn by linarith
  qed
qed

lemma py_range_down_nonempty:
  "0 < st \<Longrightarrow> b < a \<Longrightarrow> py_range a b (- st) \<noteq> [] \<and> hd (py_range a b (- st)) = a"
  by (simp add: py_range_down [of st a])


text \<open>
  Claim C1, as amended. For every canvas size that converts to a float (a size beyond the
  range of a float raises \<open>OverflowError\<close> at line 163, before the search), the
  candidates are the terms \<open>max_px - k * step\<close>, \<open>k = 0, 1, ...\<close>, that are at least
  \<open>min_px\<close>, where \<open>max_px = max(220, int(size * 0.70))\<close>,
  \<open>min_px = max(64, int(size * 0.08))\<close> and \<open>step = max(2, int(size / 170))\<close> are
  computed in double precision and truncated. The sequence is not empty and starts at
  \<open>max_px\<close>; its last term is \<open>max_px - ((max_px - min_px) div step) * step\<close>, which
  is below \<open>min_px + step\<close>, and \<open>min_px\<close> is a candidate exactly when \<open>step\<close> divides
  \<open>max_px - min_px\<close>.
\<close>

theorem candidate_sizes_sequence:
  assumes "float_of_pyint sz = Inr f"
  shows "\<exists>mx mn st cands.
     max_px sz = Inr mx \<and> min_px sz = Inr mn \<and> step_px sz = Inr st \<and>
     candidate_sizes sz = Inr cands \<and>
     220 \<le> mx \<and> 64 \<le> mn \<and> 2 \<le> st \<and> mn \<le> mx \<and>
     length cands = nat ((mx - mn) div st + 1) \<and>
     (\<forall>i < length cands. cands ! i = mx - int i * st) \<and>
     hd cands = mx \<and>
     (\<forall>c \<in> set cands. mn \<le> c) \<and>
     last cands = mx - (mx - mn) div st * st \<and>
     last cands < mn + st \<and>
     (mn \<in> set cands \<longleftrightarrow> st dvd (mx - mn))"
proof -
  obtain mx where mx: "max_px sz = Inr mx" by (simp add: max_px_value [OF assms])
  obtain mn where mn: "min_px sz = Inr mn" by (simp add: min_px_value [OF assms])
  obtain st where st: "step_px sz = Inr st" by (simp add: step_px_value [OF assms])
  define cands where "cands = py_range mx (mn - 1) (- st)"
  have cs: "candidate_sizes sz = Inr cands"
    by (simp add: candidate_sizes_def mx mn st cands_def)
  have b1: "220 \<le> mx" using mx by (auto simp: max_px_value [OF assms])
  have b2: "64 \<le> mn" using mn by (auto simp: min_px_value [OF assms])
  have b3: "2 \<le> st" using st by (rule step_px_ge)
  then have st0: "0 < st" by simp
  have le: "mn \<le> mx" using mx mn by (rule min_px_le_max_px)
  have len: "length cands = nat ((mx - mn) div st + 1)"
  proof -
    have e: "mx - (mn - 1) + st - 1 = (mx - mn) + st" by simp
    have "(mx - (mn - 1) + st - 1) div st = (mx - mn) div st + 1"
      unfolding e using st0 by simp
    then show ?thesis by (simp only: cands_def py_range_down_length [OF st0])
  qed
  have nth: "\<forall>i < length cands. cands ! i = mx - int i * st"
    by (simp add: cands_def py_range_down_nth [OF st0])
  have ne: "cands \<noteq> []" and hd: "hd cands = mx"
    using py_range_down_nonempty [OF st0, of "mn - 1" mx] le by (simp_all add: cands_def)
  have lower: "\<forall>c \<in> set cands. mn \<le> c"
    by (auto simp: cands_def py_range_down_set [OF st0])
  have d0: "0 \<le> (mx - mn) div st" using le st0 by (simp add: pos_imp_zdiv_nonneg_iff)
  have "last cands = cands ! (length cands - 1)" using ne by (rule last_conv_nth)
  also have "\<dots> = mx - int (length cands - 1) * st" using ne nth by simp
  also have "int (length cands - 1) = (mx - mn) div st" using d0 by (simp add: len)
  finally have last: "last cands = mx - (mx - mn) div st * st" .
  have "mx - mn - (mx - mn) div st * st = (mx - mn) mod st"
    by (simp add: minus_div_mult_eq_mod)
  moreover have "(mx - mn) mod st < st" using st0 by simp
  ultimately have lt: "last cands < mn + st" unfolding last by linarith
  have mem: "mn \<in> set cands \<longleftrightarrow> st dvd (mx - mn)"
    using le by (simp add: cands_def py_range_down_set [OF st0])
  from mx mn st cs b1 b2 b3 le len nth hd lower last lt mem show ?thesis by blast
qed

text \<open>The floats \<open>0.70\<close> and \<open>0.08\<close>, and the values at the sizes 660 and 1024.\<close>

lemma rnd_070: "rnd (70 / 100) = 3152519739159347 / 4503599627370496"
  using rnd_nearest [of "- 1" "70 / 100" 6305039478318694] by (simp add: pow2_def)

lemma rnd_008: "rnd (8 / 100) = 5764607523034235 / 72057594037927936"
  using rnd_nearest [of "- 4" "8 / 100" 5764607523034235] by (simp add: pow2_def)

lemma products_660:
  "rnd (rnd (of_int 660) * rnd (70 / 100)) = 8127589952520191 / 17592186044416"
  "rnd (rnd (of_int 660) * rnd (8 / 100)) = 7430939385161319 / 140737488355328"
  "rnd (of_int 660 / of_int 170) = 8742281629601551 / 2251799813685248"
proof -
  have a: "rnd (of_int 660) = 660" by simp
  have p: "rnd (660 * (3152519739159347 / 4503599627370496)) = 8127589952520191 / 17592186044416"
    using rnd_nearest [of 8 "660 * (3152519739159347 / 4503599627370496)" 8127589952520191]
    by (simp add: pow2_def)
  have q: "rnd (660 * (5764607523034235 / 72057594037927936)) = 7430939385161319 / 140737488355328"
    using rnd_nearest [of 5 "660 * (5764607523034235 / 72057594037927936)" 7430939385161319]
    by (simp add: pow2_def)
  show "rnd (rnd (of_int 660) * rnd (70 / 100)) = 8127589952520191 / 17592186044416"
    unfolding a rnd_070 by (rule p)
  show "rnd (rnd (of_int 660) * rnd (8 / 100)) = 7430939385161319 / 140737488355328"
    unfolding a rnd_008 by (rule q)
  show "rnd (of_int 660 / of_int 170) = 8742281629601551 / 2251799813685248"
    using rnd_nearest [of 1 "of_int 660 / of_int 170" 8742281629601551]
    by (simp add: pow2_def)
qed

lemma products_1024:
  "rnd (rnd (of_int 1024) * rnd (70 / 100)) = 3152519739159347 / 4398046511104"
  "rnd (rnd (of_int 1024) * rnd (8 / 100)) = 5764607523034235 / 70368744177664"
  "rnd (of_int 1024 / of_int 170) = 847736400446211 / 140737488355328"
proof -
  have a: "rnd (of_int 1024) = 1024" by simp
  have p: "rnd (1024 * (3152519739159347 / 4503599627370496)) = 3152519739159347 / 4398046511104"
    using rnd_nearest [of 9 "1024 * (3152519739159347 / 4503599627370496)" 6305039478318694]
    by (simp add: pow2_def)
  have q: "rnd (1024 * (5764607523034235 / 72057594037927936)) = 5764607523034235 / 70368744177664"
    using rnd_nearest [of 6 "1024 * (5764607523034235 / 72057594037927936)" 5764607523034235]
    by (simp add: pow2_def)
  show "rnd (rnd (of_int 1024) * rnd (70 / 100)) = 3152519739159347 / 4398046511104"
    unfolding a rnd_070 by (rule p)
  show "rnd (rnd (of_int 1024) * rnd (8 / 100)) = 5764607523034235 / 70368744177664"
    unfolding a rnd_008 by (rule q)
  show "rnd (of_int 1024 / of_int 170) = 847736400446211 / 140737488355328"
    using rnd_nearest [of 2 "of_int 1024 / of_int 170" 6781891203569688]
    by (simp add: pow2_def)
qed

lemma float_of_pyint_660: "float_of_pyint 660 = Inr (Fin 660)"
  using float_of_pyint_small [of 660] by simp

lemma float_of_pyint_1024: "float_of_pyint 1024 = Inr (Fin 1024)"
  using float_of_pyint_small [of 1024] by simp

lemma floors_660:
  "\<lfloor>8127589952520191 / 17592186044416 :: rat\<rfloor> = 461"
  "\<lfloor>7430939385161319 / 140737488355328 :: rat\<rfloor> = 52"
  "\<lfloor>8742281629601551 / 2251799813685248 :: rat\<rfloor> = 3"
  by (rule floor_unique, simp, simp)+

lemma floors_1024:
  "\<lfloor>3152519739159347 / 4398046511104 :: rat\<rfloor> = 716"
  "\<lfloor>5764607523034235 / 70368744177664 :: rat\<rfloor> = 81"
  "\<lfloor>847736400446211 / 140737488355328 :: rat\<rfloor> = 6"
  by (rule floor_unique, simp, simp)+

lemma candidate_values_660:
  "max_px 660 = Inr 461" "min_px 660 = Inr 64" "step_px 660 = Inr 3"
  unfolding max_px_value [OF float_of_pyint_660] min_px_value [OF float_of_pyint_660]
    step_px_value [OF float_of_pyint_660] products_660
  by (simp_all add: floors_660)

lemma candidate_values_1024:
  "max_px 1024 = Inr 716" "min_px 1024 = Inr 81" "step_px 1024 = Inr 6"
  unfolding max_px_value [OF float_of_pyint_1024] min_px_value [OF float_of_pyint_1024]
    step_px_value [OF float_of_pyint_1024] products_1024
  by (simp_all add: floors_1024)

text \<open>
  Counterexample to C1 as stated, at size 660. The double product \<open>660 * 0.70\<close> is below
  462, so \<open>max_px\<close> is 461 and not \<open>max(220, floor(0.70 * 660)) = 462\<close>; the step is 3
  and \<open>min_px\<close> is 64; the candidates run 461, 458, ..., 65, and 64 is not one of
  them (nor would it be from 462).
\<close>

theorem candidate_sizes_660:
  "max_px 660 = Inr 461 \<and> max 220 \<lfloor>(70 / 100 :: rat) * 660\<rfloor> = 462 \<and>
   min_px 660 = Inr 64 \<and> step_px 660 = Inr 3 \<and>
   candidate_sizes 660 = Inr (py_range 461 63 (- 3)) \<and>
   last (py_range 461 63 (- 3)) = 65 \<and>
   64 \<notin> set (py_range 461 63 (- 3))"
proof -
  have "last (py_range 461 63 (- 3)) = py_range 461 63 (- 3) ! (length (py_range 461 63 (- 3)) - 1)"
    by (rule last_conv_nth) (simp add: py_range_down [of 3 461])
  also have "\<dots> = 65"
    by (simp add: py_range_down_nth [of 3] py_range_down_length [of 3])
  finally have "last (py_range 461 63 (- 3)) = 65" .
  moreover have "64 \<notin> set (py_range 461 63 (- 3))"
    by (simp add: py_range_down_set [of 3])
  moreover have "candidate_sizes 660 = Inr (py_range 461 63 (- 3))"
    by (simp add: candidate_sizes_def candidate_values_660)
  moreover have "max 220 \<lfloor>(70 / 100 :: rat) * 660\<rfloor> = 462" by simp
  ultimately show ?thesis by (simp add: candidate_values_660)
qed

text \<open>Witness for C1: size 1024 gives 716, 710, ..., 86; \<open>min_px\<close> is 81.\<close>

theorem candidate_sizes_sequence_witness:
  "candidate_sizes 1024 = Inr (py_range 716 80 (- 6)) \<and>
   length (py_range 716 80 (- 6)) = 106 \<and>
   hd (py_range 716 80 (- 6)) = 716 \<and>
   py_range 716 80 (- 6) ! 1 = 710 \<and>
   last (py_range 716 80 (- 6)) = 86 \<and> 81 \<notin> set (py_range 716 80 (- 6))"
proof -
  from candidate_sizes_sequence [OF float_of_pyint_1024] obtain mx mn st cands where
    h: "max_px 1024 = Inr mx" "min_px 1024 = Inr mn" "step_px 1024 = Inr st"
      "candidate_sizes 1024 = Inr cands"
      "length cands = nat ((mx - mn) div st + 1)"
      "\<forall>i < length cands. cands ! i = mx - int i * st"
      "hd cands = mx"
      "last cands = mx - (mx - mn) div st * st"
      "mn \<in> set cands \<longleftrightarrow> st dvd (mx - mn)"
    by blast
  from h(1,2,3) have v: "mx = 716" "mn = 81" "st = 6" by (simp_all add: candidate_values_1024)
  have c: "cands = py_range 716 80 (- 6)"
    using h(4) by (simp add: candidate_sizes_def candidate_values_1024)
  from h(5) have len: "length (py_range 716 80 (- 6)) = 106" unfolding v c by simp
  from h(6) len have "py_range 716 80 (- 6) ! 1 = 710" unfolding v c by simp
  with h(4,7,8,9) len show ?thesis unfolding v c by simp
qed

section \<open>Verification: the example font\<close>

declare str_nat.simps [simp del]

lemma str_nat_65: "str_nat 65 = ''65''"
  by code_simp

lemma glyph_loop_single: "glyph_loop scale st [g] = glyph_step scale st g"
  by simp

lemma demo_scale:
  assumes "\<bar>px\<bar> < 2 ^ 53"
  shows "int_truediv px (upem demo_font) = Inr (Fin (rnd (of_int px / of_int 1000)))"
proof -
  have "(of_int \<bar>px\<bar> :: rat) \<le> of_int (2 ^ 53)" using assms by (simp only: of_int_le_iff)
  then have "\<bar>of_int px :: rat\<bar> \<le> 2 ^ 53" by simp
  then have "\<bar>of_int px :: rat\<bar> \<le> max_double" by (rule small_in_range)
  then have "\<bar>rnd (of_int px)\<bar> \<le> max_double" by (rule rnd_in_range)
  with int_truediv_in_range [of 1000 px] show ?thesis by (simp add: demo_font_def)
qed

lemma demo_shape_A:
  assumes "2 \<le> px" "px < 2 ^ 53"
  shows "shape_and_measure demo_font ''A'' feats px =
     Inr (Some ((Fin 0, Fin (- of_int px), Fin (of_int (px div 2)), Fin 0),
        [\<lparr>gp_x = Fin 0, gp_y = Fin (- of_int px), gp_width = px div 2, gp_height = px,
          gp_buffer = replicate (nat (px div 2 * px)) 255\<rparr>],
        [''65'']))"
proof -
  have h: "\<bar>px\<bar> < 2 ^ 53" "\<bar>px div 2\<bar> < 2 ^ 53" "0 < px div 2" "0 < px"
    using assms by auto
  obtain s where sc: "int_truediv px (upem demo_font) = Inr (Fin s)"
    using demo_scale [OF h(1)] by simp
  have run: "[demo_glyph px CHR ''A''] = shape_run demo_font ''A'' feats px"
    by (simp add: demo_font_def)
  have ne: "''A'' \<noteq> []" by simp
  have gx: "glyph_gx (Fin s) (float_lit 0) (demo_glyph px CHR ''A'') = Fin 0"
    by (simp add: glyph_gx_def demo_glyph_def float_lit_def float_of_int_def)
  have gy: "glyph_gy (Fin s) (demo_glyph px CHR ''A'') = Fin (- of_int px)"
    using h by (simp add: glyph_gy_def demo_glyph_def float_of_int_def fsub_def rnd_of_int
        rnd_minus_of_int of_rounded_of_int)
  have dr: "drawable (demo_glyph px CHR ''A'')"
    using h by (simp add: drawable_def demo_glyph_def)
  have w: "bitmap_width (demo_glyph px CHR ''A'') = px div 2"
    "bitmap_rows (demo_glyph px CHR ''A'') = px"
    "bitmap_buffer (demo_glyph px CHR ''A'') = replicate (nat (px div 2 * px)) 255"
    by (simp_all add: demo_glyph_def)
  have nm: "name_of_glyph (demo_glyph px CHR ''A'') = ''65''"
    by (simp add: name_of_glyph_def demo_glyph_def str_nat_65)
  have mx: "fadd (Fin 0) (float_of_int (px div 2)) = Fin (of_int (px div 2))"
    using h by (simp add: float_of_int_def rnd_of_int of_rounded_of_int)
  have my: "fadd (Fin (- of_int px)) (float_of_int px) = Fin 0"
    using h by (simp add: float_of_int_def rnd_of_int)
  show ?thesis
    unfolding shape_and_measure_result [OF sc run ne]
    using dr
    by (simp add: glyph_step_fields gx gy w nm mx my py_min_def py_max_def)
qed





lemma candidate_sizes_1024: "candidate_sizes 1024 = Inr (py_range 716 80 (- 6))"
  by (simp add: candidate_sizes_def candidate_values_1024)

lemma demo_space_empty:
  assumes "\<bar>px\<bar> < 2 ^ 53"
  shows "shape_and_measure demo_font '' '' feats px = Inr None"
proof -
  note sc = demo_scale [OF assms]
  have run: "[demo_glyph px CHR '' ''] = shape_run demo_font '' '' feats px"
    by (simp add: demo_font_def)
  have ne: "'' '' \<noteq> []" by simp
  show ?thesis
    unfolding shape_and_measure_result [OF sc run ne]
    by (simp add: glyph_step_fields drawable_def demo_glyph_def)
qed

lemma demo_candidates_small:
  "q \<in> set (py_range 716 80 (- 6)) \<Longrightarrow> 2 \<le> q \<and> q < 2 ^ 53 \<and> \<bar>q\<bar> < 2 ^ 53"
  by (simp add: py_range_down_set [of 6])

lemma demo_space_not_accepted:
  "q \<in> set (py_range 716 80 (- 6)) \<Longrightarrow> \<not> accepts demo_font '' '' feats tw th q"
  using demo_candidates_small [of q] by (simp add: accepts_def demo_space_empty)

lemma demo_env_font: "load_font demo_env ''demo.ttf'' = Some demo_font"
  by (simp add: demo_env_def)

section \<open>Verification: Auto-Fit Search\<close>

lemma bind_run_simps [simp]:
  "bind_run (ev, Inl e) f = (ev, Inl e)"
  "bind_run (ev, Inr v) f = (ev @ fst (f v), snd (f v))"
  by (simp_all add: bind_run_def split: prod.split)

text \<open>Shaping raises only for a \<open>upem\<close> of 0, for the empty text, and for a pixel size
  beyond the range of a float.\<close>

lemma shape_no_error:
  assumes "upem fnt \<noteq> 0" "txt \<noteq> []" "\<bar>rnd (of_int px)\<bar> \<le> max_double"
  shows "\<exists>r. shape_and_measure fnt txt feats px = Inr r"
  using assms int_truediv_in_range [OF assms(1,3)]
  by (simp add: shape_and_measure_def Let_def)

lemma shape_error_kind:
  "shape_and_measure fnt txt feats px = Inl e \<Longrightarrow>
   e = ZeroDivision \<or> e = IntToFloatOverflow \<or> e = PositionsNotIterable"
  by (auto simp: shape_and_measure_def int_truediv_def Let_def split: if_splits)

lemma shape_candidates_no_error:
  assumes "upem fnt \<noteq> 0" "txt \<noteq> []" "candidate_sizes sz = Inr cands"
  shows "\<forall>p \<in> set cands. \<exists>r. shape_and_measure fnt txt feats p = Inr r"
proof
  fix p assume "p \<in> set cands"
  from candidate_in_range [OF assms(3) this] have "\<bar>rnd (of_int p)\<bar> \<le> max_double" by simp
  from shape_no_error [OF assms(1,2) this] show "\<exists>r. shape_and_measure fnt txt feats p = Inr r" .
qed


lemma fit_loop_none:
  "\<forall>q \<in> set cands. \<exists>r. shape_and_measure fnt txt feats q = Inr r \<Longrightarrow>
   \<forall>q \<in> set cands. \<not> accepts fnt txt feats tw th q \<Longrightarrow>
   fit_loop fnt txt feats tw th cands = (map Shaped cands, Inr None)"
proof (induction cands)
  case Nil
  then show ?case by simp
next
  case (Cons q rest)
  then have ih: "fit_loop fnt txt feats tw th rest = (map Shaped rest, Inr None)" by simp
  from Cons.prems(1) obtain r where
    r: "shape_and_measure fnt txt feats q = Inr r" by auto
  show ?case
  proof (cases r)
    case None
    with r ih show ?thesis by simp
  next
    case (Some t)
    obtain bbox pls names where t: "t = (bbox, pls, names)" by (cases t)
    from Cons.prems(2) r Some t have "\<not> fits tw th bbox" by (simp add: accepts_def)
    with r Some t ih show ?thesis by simp
  qed
qed




section \<open>Verification: Avatar Compositor\<close>

lemma py_round_error: "py_round x = Inl e \<Longrightarrow> e \<noteq> UnsupportedShape"
  by (cases x) auto

lemma paste_loop_error: "paste_loop lib mx my pls = Inl e \<Longrightarrow> e \<noteq> UnsupportedShape"
  by (induction pls) (auto split: if_splits sum.splits dest: py_round_error)

lemma make_text_mask_error: "make_text_mask lib bbox pls = Inl e \<Longrightarrow> e \<noteq> UnsupportedShape"
  by (auto simp: make_text_mask_def Let_def split: prod.splits sum.splits if_splits
      dest: py_round_error paste_loop_error)

lemma perform_cases:
  "perform lib calls eff = ([], Inl ImageLibraryError) \<or> perform lib calls eff = ([eff], Inr ())"
  by (simp add: perform_def)

lemma compose_invalid_shape:
  assumes "arg_shape a \<noteq> ''circle''" "arg_shape a \<noteq> ''square''"
  shows "compose ev a (px, bbox, pls, names) =
     (case make_text_mask (refuses ev) bbox pls of
        Inl e \<Rightarrow> ([], Inl e)
      | Inr (msk, (w, h)) \<Rightarrow> ([MaskBuilt w h], Inl UnsupportedShape))"
  using assms by (simp add: compose_def canvas_for_def split: sum.splits prod.splits)

text \<open>A composition that returns has written the file, and returns the pixel size and the
  names of the choice it was given.\<close>

lemma canvas_for_returns:
  "snd (canvas_for lib a) = Inr u \<Longrightarrow>
   (arg_shape a = ''circle'' \<or> arg_shape a = ''square'') \<and>
   (\<exists>eff. fst (canvas_for lib a) = [eff])"
  by (auto simp: canvas_for_def perform_def split: if_splits)




lemma candidate_sizes_total:
  "float_of_pyint sz = Inr f \<Longrightarrow> \<exists>cands. candidate_sizes sz = Inr cands"
  by (simp add: candidate_sizes_def max_px_value min_px_value step_px_value)

lemma candidate_sizes_converts:
  "candidate_sizes sz = Inr cands \<Longrightarrow> float_of_pyint sz = Inr (float_of_int sz)"
  by (auto simp: candidate_sizes_def max_px_def float_of_pyint_def split: sum.splits if_splits)

lemma build_avatar_loaded:
  assumes "load_font ev (arg_font_path a) = Some fnt"
    and "candidate_sizes (arg_size a) = Inr cands"
  shows "build_avatar ev a =
     bind_run
       (bind_run
          (bind_run ([FontLoaded (arg_font_path a)], Inr ())
             (\<lambda>_. fit_loop fnt (arg_text a) (arg_features a)
                    (fmul (float_of_int (arg_size a)) (arg_fit_width_ratio a))
                    (fmul (float_of_int (arg_size a)) (arg_fit_height_ratio a)) cands))
          (fallback fnt (arg_text a) (arg_features a)))
       (compose ev a)"
  using assms candidate_sizes_converts [OF assms(2)]
  by (simp add: build_avatar_def Let_def bind_run_def split: prod.splits sum.splits)

lemma build_avatar_no_fit:
  assumes "load_font ev (arg_font_path a) = Some fnt"
    and "upem fnt \<noteq> 0"
    and "arg_text a \<noteq> []"
    and "candidate_sizes (arg_size a) = Inr cands"
    and "\<forall>q \<in> set cands. \<not> accepts fnt (arg_text a) (arg_features a)
           (fmul (float_of_int (arg_size a)) (arg_fit_width_ratio a))
           (fmul (float_of_int (arg_size a)) (arg_fit_height_ratio a)) q"
  shows "build_avatar ev a =
     bind_run
       (case shape_and_measure fnt (arg_text a) (arg_features a) 220 of
          Inl e \<Rightarrow> (FontLoaded (arg_font_path a) # map Shaped cands @ [Shaped 220], Inl e)
        | Inr None \<Rightarrow>
            (FontLoaded (arg_font_path a) # map Shaped cands @ [Shaped 220], Inl NoDrawableGlyphs)
        | Inr (Some (bbox, pls, names)) \<Rightarrow>
            (FontLoaded (arg_font_path a) # map Shaped cands @ [Shaped 220],
             Inr (220, bbox, pls, names)))
       (compose ev a)"
  unfolding build_avatar_loaded [OF assms(1,4)]
    fit_loop_none [OF shape_candidates_no_error [OF assms(2,3,4)] assms(5)]
  by (simp add: fallback_def split: sum.splits option.splits)


lemma demo_args_fields:
  "arg_font_path demo_args = ''demo.ttf''" "arg_text demo_args = ''A''"
  "arg_features demo_args = Map.empty" "arg_size demo_args = 1024"
  "arg_shape demo_args = ''circle''" "arg_output_path demo_args = ''out.png''"
  "arg_margin demo_args = 72" "arg_glow_blur demo_args = Fin 8"
  "arg_glow_color demo_args = (94, 129, 172, 190)"
  by (simp_all add: demo_args_def)



lemma fit_loop_effects:
  "\<exists>pxs. fst (fit_loop fnt txt feats tw th cands) = map Shaped pxs \<and>
     (\<forall>e. snd (fit_loop fnt txt feats tw th cands) = Inl e \<longrightarrow> e \<noteq> UnsupportedShape) \<and>
     (\<forall>ch. snd (fit_loop fnt txt feats tw th cands) = Inr (Some ch) \<longrightarrow> pxs \<noteq> [])"
proof (induction cands)
  case Nil
  show ?case by simp
next
  case (Cons px rest)
  then obtain pxs where ih:
    "fst (fit_loop fnt txt feats tw th rest) = map Shaped pxs"
    "\<forall>e. snd (fit_loop fnt txt feats tw th rest) = Inl e \<longrightarrow> e \<noteq> UnsupportedShape"
    by blast
  obtain ev r where rec: "fit_loop fnt txt feats tw th rest = (ev, r)"
    by (cases "fit_loop fnt txt feats tw th rest")
  with ih have ev: "ev = map Shaped pxs" and er: "\<forall>e. r = Inl e \<longrightarrow> e \<noteq> UnsupportedShape"
    by simp_all
  have cont: "bind_run ([Shaped px], Inr ()) (\<lambda>_. fit_loop fnt txt feats tw th rest)
      = (map Shaped (px # pxs), r)"
    by (simp add: rec ev)
  show ?case
  proof (cases "shape_and_measure fnt txt feats px")
    case (Inl e)
    then have k: "e \<noteq> UnsupportedShape" by (auto dest: shape_error_kind)
    from Inl have e: "fit_loop fnt txt feats tw th (px # rest) = (map Shaped [px], Inl e)"
      by simp
    show ?thesis unfolding e using k by (intro exI [of _ "[px]"]) simp
  next
    case (Inr res)
    show ?thesis
    proof (cases res)
      case None
      with Inr have e: "fit_loop fnt txt feats tw th (px # rest) = (map Shaped (px # pxs), r)"
        by (simp only: fit_loop.simps sum.case option.case cont)
      show ?thesis unfolding e using er by (intro exI [of _ "px # pxs"]) simp
    next
      case (Some t)
      obtain bbox pls names where t: "t = (bbox, pls, names)" by (cases t)
      show ?thesis
      proof (cases "fits tw th bbox")
        case True
        with Inr Some t have e: "fit_loop fnt txt feats tw th (px # rest)
            = (map Shaped [px], Inr (Some (px, bbox, pls, names)))" by simp
        show ?thesis unfolding e by (rule exI [of _ "[px]"]) simp
      next
        case False
        with Inr Some t have e: "fit_loop fnt txt feats tw th (px # rest)
            = (map Shaped (px # pxs), r)"
          by (simp only: fit_loop.simps sum.case option.case prod.case if_False cont)
        show ?thesis unfolding e using er by (intro exI [of _ "px # pxs"]) simp
      qed
    qed
  qed
qed

lemma fallback_effects:
  "\<exists>pxs. fst (fallback fnt txt feats ch) = map Shaped pxs \<and>
     (\<forall>e. snd (fallback fnt txt feats ch) = Inl e \<longrightarrow> e \<noteq> UnsupportedShape) \<and>
     (ch = None \<longrightarrow> pxs \<noteq> [])"
proof (cases ch)
  case (Some c)
  then have e: "fallback fnt txt feats ch = (map Shaped [], Inr c)" by (simp add: fallback_def)
  show ?thesis unfolding e using Some by (intro exI [of _ "[]"]) simp
next
  case None
  then have "fst (fallback fnt txt feats ch) = map Shaped [220]"
    by (simp add: fallback_def split: sum.splits option.splits)
  moreover have "\<forall>e. snd (fallback fnt txt feats ch) = Inl e \<longrightarrow> e \<noteq> UnsupportedShape"
    using None by (auto simp: fallback_def split: sum.splits option.splits dest: shape_error_kind)
  ultimately show ?thesis by (intro exI [of _ "[220]"]) simp
qed

text \<open>The search and the fallback together.\<close>

lemma choose_effects:
  "\<exists>pxs. fst (bind_run (fit_loop fnt txt feats tw th cands) (fallback fnt txt feats))
       = map Shaped pxs \<and>
     (\<forall>e. snd (bind_run (fit_loop fnt txt feats tw th cands) (fallback fnt txt feats)) = Inl e
        \<longrightarrow> e \<noteq> UnsupportedShape) \<and>
     (\<forall>c. snd (bind_run (fit_loop fnt txt feats tw th cands) (fallback fnt txt feats)) = Inr c
        \<longrightarrow> pxs \<noteq> [])"
proof -
  obtain ev r where f: "fit_loop fnt txt feats tw th cands = (ev, r)"
    by (cases "fit_loop fnt txt feats tw th cands")
  note fe = fit_loop_effects [of fnt "txt" feats tw th cands]
  from fe f obtain pxs1 where
    e1: "ev = map Shaped pxs1" and r1: "\<forall>e. r = Inl e \<longrightarrow> e \<noteq> UnsupportedShape"
    and n1: "\<forall>ch. r = Inr (Some ch) \<longrightarrow> pxs1 \<noteq> []" by auto
  show ?thesis
  proof (cases r)
    case (Inl e)
    then have "bind_run (fit_loop fnt txt feats tw th cands) (fallback fnt txt feats)
        = (map Shaped pxs1, Inl e)" by (simp add: f e1)
    moreover from r1 Inl have "e \<noteq> UnsupportedShape" by simp
    ultimately show ?thesis by (intro exI [of _ pxs1]) simp
  next
    case (Inr ch)
    from fallback_effects [of fnt "txt" feats ch] obtain pxs2 where
      e2: "fst (fallback fnt txt feats ch) = map Shaped pxs2"
      and r2: "\<forall>e. snd (fallback fnt txt feats ch) = Inl e \<longrightarrow> e \<noteq> UnsupportedShape"
      and n2: "ch = None \<longrightarrow> pxs2 \<noteq> []" by blast
    have b: "bind_run (fit_loop fnt txt feats tw th cands) (fallback fnt txt feats)
        = (map Shaped (pxs1 @ pxs2), snd (fallback fnt txt feats ch))"
      by (simp add: f Inr e1 e2)
    have "pxs1 @ pxs2 \<noteq> []" using n1 n2 Inr by (cases ch) auto
    with r2 show ?thesis unfolding b by (intro exI [of _ "pxs1 @ pxs2"]) simp
  qed
qed

lemma main_invalid_choice:
  "cli_shape c \<noteq> ''circle'' \<Longrightarrow> cli_shape c \<noteq> ''square'' \<Longrightarrow>
   main ev c = ([], Inl InvalidChoice)"
  by (simp add: main_def parse_args_def)

lemma build_avatar_invalid_shape:
  assumes "arg_shape a \<noteq> ''circle''" "arg_shape a \<noteq> ''square''"
  shows "(\<exists>e. snd (build_avatar ev a) = Inl e) \<and>
     (\<forall>x \<in> set (fst (build_avatar ev a)). \<not> is_output_effect x) \<and>
     (snd (build_avatar ev a) = Inl UnsupportedShape \<longrightarrow>
        (\<exists>pxs w h. pxs \<noteq> [] \<and>
           fst (build_avatar ev a)
             = FontLoaded (arg_font_path a) # map Shaped pxs @ [MaskBuilt w h]))"
proof (cases "load_font ev (arg_font_path a)")
  case None
  then have "build_avatar ev a = ([], Inl FontLoadError)" by (simp add: build_avatar_def)
  then show ?thesis by simp
next
  case (Some fnt)
  show ?thesis
  proof (cases "float_of_pyint (arg_size a)")
    case (Inl e)
    then have "e = IntToFloatOverflow" by (auto simp: float_of_pyint_def split: if_splits)
    with Inl Some have "build_avatar ev a = ([FontLoaded (arg_font_path a)], Inl IntToFloatOverflow)"
      by (simp add: build_avatar_def)
    then show ?thesis by simp
  next
    case (Inr f)
  then obtain cands where cs: "candidate_sizes (arg_size a) = Inr cands"
    using candidate_sizes_total by blast
  let ?tw = "fmul (float_of_int (arg_size a)) (arg_fit_width_ratio a)"
  let ?th = "fmul (float_of_int (arg_size a)) (arg_fit_height_ratio a)"
  let ?choose = "bind_run (fit_loop fnt (arg_text a) (arg_features a) ?tw ?th cands)
      (fallback fnt (arg_text a) (arg_features a))"
  obtain ev1 r1 where ch: "?choose = (ev1, r1)" by (cases ?choose)
  from choose_effects [of fnt "arg_text a" "arg_features a" ?tw ?th cands] ch
  obtain pxs where e1: "ev1 = map Shaped pxs"
    and r1: "\<forall>e. r1 = Inl e \<longrightarrow> e \<noteq> UnsupportedShape"
    and n1: "\<forall>c. r1 = Inr c \<longrightarrow> pxs \<noteq> []" by auto
  have b: "build_avatar ev a =
      bind_run (bind_run ([FontLoaded (arg_font_path a)], Inr ()) (\<lambda>_. ?choose)) (compose ev a)"
    unfolding build_avatar_loaded [OF Some cs]
    by (simp add: bind_run_def split: prod.splits sum.splits)
  show ?thesis
  proof (cases r1)
    case (Inl e)
    then have "build_avatar ev a = (FontLoaded (arg_font_path a) # map Shaped pxs, Inl e)"
      unfolding b ch by (simp add: e1)
    moreover from r1 Inl have "e \<noteq> UnsupportedShape" by auto
    ultimately show ?thesis by auto
  next
    case (Inr c)
    obtain px bbox pls names where c: "c = (px, bbox, pls, names)" by (cases c)
    from n1 Inr have ne: "pxs \<noteq> []" by blast
    show ?thesis
    proof (cases "make_text_mask (refuses ev) bbox pls")
      case (Inl e)
      then have "build_avatar ev a = (FontLoaded (arg_font_path a) # map Shaped pxs, Inl e)"
        unfolding b ch by (simp add: e1 Inr c compose_invalid_shape [OF assms])
      moreover from Inl have "e \<noteq> UnsupportedShape" by (rule make_text_mask_error)
      ultimately show ?thesis by auto
    next
      case (Inr m)
      obtain msk w h where m: "m = (msk, (w, h))" by (cases m) auto
      from Inr m have "build_avatar ev a =
          (FontLoaded (arg_font_path a) # map Shaped pxs @ [MaskBuilt w h], Inl UnsupportedShape)"
        unfolding b ch by (simp add: e1 \<open>r1 = Inr c\<close> c compose_invalid_shape [OF assms])
      with ne show ?thesis by auto
    qed
  qed
  qed
qed

text \<open>
  Claim C2, as amended. On the command line a shape other than \<open>circle\<close> and
  \<open>square\<close> is refused by the argument parser: \<open>main\<close> stops there, before it parses
  features or colors, looks for the font or renders anything. \<open>build_avatar\<close> called
  with such a shape never returns a result and never creates a canvas, pastes a layer,
  creates a directory or writes a file; but its unsupported-shape error is raised late:
  whenever it is raised, the font has been loaded, at least one shaping pass has run and
  the text mask has been built.
\<close>

theorem shape_rejection:
  "(cli_shape c \<noteq> ''circle'' \<and> cli_shape c \<noteq> ''square'' \<longrightarrow>
      main ev c = ([], Inl InvalidChoice)) \<and>
   (arg_shape a \<noteq> ''circle'' \<and> arg_shape a \<noteq> ''square'' \<longrightarrow>
      (\<exists>e. snd (build_avatar ev a) = Inl e) \<and>
      (\<forall>x \<in> set (fst (build_avatar ev a)). \<not> is_output_effect x) \<and>
      (snd (build_avatar ev a) = Inl UnsupportedShape \<longrightarrow>
         (\<exists>pxs w h. pxs \<noteq> [] \<and>
            fst (build_avatar ev a)
              = FontLoaded (arg_font_path a) # map Shaped pxs @ [MaskBuilt w h])))"
  using main_invalid_choice [of c ev] build_avatar_invalid_shape [of a ev] by blast

lemma demo_first_fit:
  "fit_loop demo_font ''A'' Map.empty (Fin 1024) (Fin 1024) (py_range 716 80 (- 6)) =
     ([Shaped 716],
      Inr (Some (716, (Fin 0, Fin (- 716), Fin 358, Fin 0),
        [\<lparr>gp_x = Fin 0, gp_y = Fin (- 716), gp_width = 358, gp_height = 716,
          gp_buffer = replicate (nat (358 * 716)) 255\<rparr>], [''65''])))"
proof -
  have r: "py_range 716 80 (- 6) = 716 # py_range 710 80 (- 6)"
    by (simp add: py_range_down [of 6 716])
  have s: "shape_and_measure demo_font ''A'' Map.empty 716 =
     Inr (Some ((Fin 0, Fin (- 716), Fin 358, Fin 0),
        [\<lparr>gp_x = Fin 0, gp_y = Fin (- 716), gp_width = 358, gp_height = 716,
          gp_buffer = replicate (nat (358 * 716)) 255\<rparr>], [''65'']))"
    using demo_shape_A [of 716 Map.empty] by simp
  have f: "fits (Fin 1024) (Fin 1024) (Fin 0, Fin (- 716), Fin 358, Fin 0)"
    by (simp add: fits_def fsub_def fle_def)
  show ?thesis unfolding r by (simp add: s f)
qed

text \<open>
  Counterexample to C2 as stated. \<open>build_avatar\<close> with the shape \<open>triangle\<close>, on the
  example font with fit ratios 1.0, loads the font, shapes the text at 716 pixels and
  builds a mask of 358 by 716 before it raises the unsupported-shape error. With a text
  of one space it shapes at all 106 candidates and at 220, and the error is the
  no-drawable-glyphs error, not the invalid-argument one.
\<close>

theorem build_avatar_triangle:
  "build_avatar demo_env
     (demo_args\<lparr>arg_shape := ''triangle'', arg_fit_width_ratio := Fin 1,
                arg_fit_height_ratio := Fin 1\<rparr>)
   = ([FontLoaded ''demo.ttf'', Shaped 716, MaskBuilt 358 716], Inl UnsupportedShape) \<and>
   build_avatar demo_env (demo_args\<lparr>arg_shape := ''triangle'', arg_text := '' ''\<rparr>)
   = (FontLoaded ''demo.ttf'' # map Shaped (py_range 716 80 (- 6)) @ [Shaped 220],
      Inl NoDrawableGlyphs)"
proof -
  let ?a = "demo_args\<lparr>arg_shape := ''triangle'', arg_fit_width_ratio := Fin 1,
      arg_fit_height_ratio := Fin 1\<rparr>"
  have lf: "load_font demo_env (arg_font_path ?a) = Some demo_font"
    by (simp add: demo_args_def demo_env_font)
  have cs: "candidate_sizes (arg_size ?a) = Inr (py_range 716 80 (- 6))"
    by (simp add: demo_args_def candidate_sizes_1024)
  have t: "fmul (float_of_int (arg_size ?a)) (arg_fit_width_ratio ?a) = Fin 1024"
    "fmul (float_of_int (arg_size ?a)) (arg_fit_height_ratio ?a) = Fin 1024"
    by (simp_all add: demo_args_def float_of_int_def)
  have l: "refuses demo_env = demo_library" by (simp add: demo_env_def)
  have m: "make_text_mask (refuses demo_env) (Fin 0, Fin (- 716), Fin 358, Fin 0)
      [\<lparr>gp_x = Fin 0, gp_y = Fin (- 716), gp_width = 358, gp_height = 716, gp_buffer = replicate (nat (358 * 716)) 255\<rparr>]
     = Inr (\<lparr>mask_width = 358, mask_height = 716,
             mask_pastes = [\<lparr>paste_x = 0, paste_y = 0, paste_width = 358, paste_height = 716,
                              paste_buffer = replicate (nat (358 * 716)) 255\<rparr>]\<rparr>, (358, 716))"
    by (simp add: l make_text_mask_def fsub_def Let_def)
  have sh: "arg_shape ?a \<noteq> ''circle''" "arg_shape ?a \<noteq> ''square''" by simp_all
  have cmp: "compose demo_env ?a (716, (Fin 0, Fin (- 716), Fin 358, Fin 0),
        [\<lparr>gp_x = Fin 0, gp_y = Fin (- 716), gp_width = 358, gp_height = 716,
          gp_buffer = replicate (nat (358 * 716)) 255\<rparr>], [''65''])
      = ([MaskBuilt 358 716], Inl UnsupportedShape)"
    unfolding compose_invalid_shape [OF sh] m by simp
  have first: "build_avatar demo_env ?a
      = ([FontLoaded ''demo.ttf'', Shaped 716, MaskBuilt 358 716], Inl UnsupportedShape)"
    unfolding build_avatar_loaded [OF lf cs] t
    using cmp by (simp add: demo_args_fields demo_first_fit fallback_def)
  let ?b = "demo_args\<lparr>arg_shape := ''triangle'', arg_text := '' ''\<rparr>"
  have lf': "load_font demo_env (arg_font_path ?b) = Some demo_font"
    by (simp add: demo_args_def demo_env_font)
  have cs': "candidate_sizes (arg_size ?b) = Inr (py_range 716 80 (- 6))"
    by (simp add: demo_args_def candidate_sizes_1024)
  have up: "upem demo_font \<noteq> 0" by (simp add: demo_font_def)
  have none: "\<forall>q \<in> set (py_range 716 80 (- 6)). \<not> accepts demo_font (arg_text ?b) (arg_features ?b)
           (fmul (float_of_int (arg_size ?b)) (arg_fit_width_ratio ?b))
           (fmul (float_of_int (arg_size ?b)) (arg_fit_height_ratio ?b)) q"
    by (simp add: demo_args_def demo_space_not_accepted)
  have ne: "arg_text ?b \<noteq> []" by simp
  have second: "build_avatar demo_env ?b
      = (FontLoaded ''demo.ttf'' # map Shaped (py_range 716 80 (- 6)) @ [Shaped 220],
         Inl NoDrawableGlyphs)"
    unfolding build_avatar_no_fit [OF lf' up ne cs' none]
    by (simp add: demo_args_fields demo_space_empty)
  from first second show ?thesis by blast
qed

text \<open>Witness for C2: the shape \<open>triangle\<close> on the command line and in a direct call.\<close>

theorem shape_rejection_witness:
  "main demo_env (demo_cli\<lparr>cli_shape := ''triangle''\<rparr>) = ([], Inl InvalidChoice) \<and>
   (\<exists>e. snd (build_avatar demo_env (demo_args\<lparr>arg_shape := ''triangle''\<rparr>)) = Inl e)"
proof -
  have "cli_shape (demo_cli\<lparr>cli_shape := ''triangle''\<rparr>) \<noteq> ''circle'' \<and>
      cli_shape (demo_cli\<lparr>cli_shape := ''triangle''\<rparr>) \<noteq> ''square''" by simp
  moreover have "arg_shape (demo_args\<lparr>arg_shape := ''triangle''\<rparr>) \<noteq> ''circle'' \<and>
      arg_shape (demo_args\<lparr>arg_shape := ''triangle''\<rparr>) \<noteq> ''square''" by simp
  ultimately show ?thesis
    using shape_rejection [of "demo_cli\<lparr>cli_shape := ''triangle''\<rparr>" demo_env
        "demo_args\<lparr>arg_shape := ''triangle''\<rparr>"]
    by blast
qed


end
